theory Spec2Isabelle
  imports Complex_Main
begin

section \<open>The heuristic move-selection engine of smart\_bot.py\<close>

text \<open>
  The board is a Python list of rows, each row a list of one-character strings
  (\<open>"X"\<close>, \<open>"O"\<close>, and \<open>"_"\<close> for an empty field). Moves and stone counts are
  Python integers; positions inside a list (the values produced by \<open>range(len(...))\<close>)
  are natural numbers. A subscript that is out of range raises \<open>IndexError\<close> in
  Python; every function that can reach such a subscript returns a sum type with the
  error on the left.
\<close>

datatype py_error = IndexError

type_synonym board = "string list list"

text \<open>A Python \<open>dict\<close> keeps its keys in insertion order; it is an association list
  with distinct keys.\<close>

type_synonym ('k, 'v) dict = "('k \<times> 'v) list"

subsection \<open>Python primitives\<close>

text \<open>\<open>xs[i]\<close> for a non-negative position \<open>i\<close>.\<close>

definition getitem :: "'a list \<Rightarrow> nat \<Rightarrow> py_error + 'a" where
  "getitem xs i = (if i < length xs then Inr (xs ! i) else Inl IndexError)"

definition bind_err :: "py_error + 'a \<Rightarrow> ('a \<Rightarrow> py_error + 'b) \<Rightarrow> py_error + 'b" where
  "bind_err m f = (case m of Inl e \<Rightarrow> Inl e | Inr x \<Rightarrow> f x)"

text \<open>A list comprehension whose element expression may raise: the first error, in
  evaluation order, aborts the comprehension.\<close>

fun collect_err :: "(py_error + 'a) list \<Rightarrow> py_error + 'a list" where
  "collect_err [] = Inr []"
| "collect_err (m # ms) =
     bind_err m (\<lambda>x. bind_err (collect_err ms) (\<lambda>xs. Inr (x # xs)))"

text \<open>\<open>d[k] = v\<close>: an existing key keeps its position and takes the new value, a new
  key is appended.\<close>

fun dict_set :: "('k, 'v) dict \<Rightarrow> 'k \<Rightarrow> 'v \<Rightarrow> ('k, 'v) dict" where
  "dict_set [] k v = [(k, v)]"
| "dict_set ((k', v') # d) k v =
     (if k' = k then (k, v) # d else (k', v') # dict_set d k v)"

text \<open>\<open>d.get(k, default)\<close>, which is also what reading \<open>d[k]\<close> gives on a
  \<open>defaultdict(int)\<close> with default \<open>0\<close>.\<close>

definition dict_get :: "('k, 'v) dict \<Rightarrow> 'k \<Rightarrow> 'v \<Rightarrow> 'v" where
  "dict_get d k dflt = (case map_of d k of None \<Rightarrow> dflt | Some v \<Rightarrow> v)"

text \<open>
  \<open>list(s)\<close> for a set \<open>s\<close> lists the elements of \<open>s\<close>, each once, in an order the
  language does not fix. The order is a parameter \<open>order\<close> of every function that
  converts a set to a list; \<open>iteration_order\<close> says what every Python implementation
  guarantees of it.
\<close>

definition iteration_order :: "(int set \<Rightarrow> int list) \<Rightarrow> bool" where
  "iteration_order order \<longleftrightarrow> (\<forall>S. finite S \<longrightarrow> set (order S) = S \<and> distinct (order S))"

text \<open>The ascending order, one admissible iteration order, used for concrete runs.\<close>

definition ascending :: "int set \<Rightarrow> int list" where
  "ascending S = sorted_list_of_set S"

subsection \<open>Board queries\<close>

text \<open>\<open>get_player_fields\<close>: the loop over \<open>row_index\<close> carries \<open>prev_rows\<close>, which
  grows by 2 per row; the inner loop appends \<open>row_index + prev_rows + col_index + 1\<close>
  for every column holding the symbol.\<close>

fun get_player_fields_loop :: "nat \<Rightarrow> nat \<Rightarrow> board \<Rightarrow> string \<Rightarrow> int list" where
  "get_player_fields_loop row_index prev_rows [] player_symbol = []"
| "get_player_fields_loop row_index prev_rows (row # rows) player_symbol =
     map (\<lambda>col_index. int (row_index + prev_rows + col_index + 1))
         (filter (\<lambda>col_index. row ! col_index = player_symbol) [0..<length row])
     @ get_player_fields_loop (Suc row_index) (prev_rows + 2) rows player_symbol"

definition get_player_fields :: "board \<Rightarrow> string \<Rightarrow> int list" where
  "get_player_fields game_board player_symbol =
     get_player_fields_loop 0 0 game_board player_symbol"

definition get_possible_moves :: "(int set \<Rightarrow> int list) \<Rightarrow> board \<Rightarrow> int list" where
  "get_possible_moves order game_board =
     (let occupied_fields_other = get_player_fields game_board ''X'';
          occupied_fields_KI = get_player_fields game_board ''O'';
          occupied_fields_all = set (occupied_fields_other @ occupied_fields_KI);
          all_fields = {1..9};
          possible_moves = all_fields - occupied_fields_all
      in order possible_moves)"

text \<open>\<open>get_diagonal_counts\<close>: for \<open>i\<close> in \<open>range(3)\<close> the body reads
  \<open>game_board[i][i]\<close> and then \<open>game_board[i][2 - i]\<close>.\<close>

definition diagonal_step ::
  "board \<Rightarrow> string \<Rightarrow> nat \<Rightarrow> int \<times> int \<Rightarrow> py_error + int \<times> int" where
  "diagonal_step game_board player_symbol i counts =
     bind_err (getitem game_board i) (\<lambda>row.
     bind_err (getitem row i) (\<lambda>c1.
     bind_err (getitem row (2 - i)) (\<lambda>c2.
       Inr (if c1 = player_symbol then fst counts + 1 else fst counts,
            if c2 = player_symbol then snd counts + 1 else snd counts))))"

definition get_diagonal_counts :: "board \<Rightarrow> string \<Rightarrow> py_error + (nat, int) dict" where
  "get_diagonal_counts game_board player_symbol =
     bind_err (diagonal_step game_board player_symbol 0 (0, 0)) (\<lambda>c0.
     bind_err (diagonal_step game_board player_symbol 1 c0) (\<lambda>c1.
     bind_err (diagonal_step game_board player_symbol 2 c1) (\<lambda>c2.
       Inr [(0, fst c2), (1, snd c2)])))"

text \<open>\<open>sort_dictonary\<close>: \<open>sorted\<close> is stable, also with \<open>reverse=True\<close>, so items of
  equal value keep their order; descending by value is ascending by the negated value.\<close>

definition sort_dictonary :: "('k, int) dict \<Rightarrow> ('k, int) dict" where
  "sort_dictonary dictionary = sort_key (\<lambda>item. - snd item) dictionary"

definition get_horizontal_counts :: "board \<Rightarrow> string \<Rightarrow> (nat, int) dict" where
  "get_horizontal_counts game_board player_symbol =
     sort_dictonary
       (map (\<lambda>row_index.
               (row_index,
                int (length (filter (\<lambda>col_index. game_board ! row_index ! col_index = player_symbol)
                                    [0..<length (game_board ! row_index)]))))
            [0..<length game_board])"

text \<open>\<open>transposed\<close>: \<open>len(game_board[0])\<close> is evaluated first; then, for every column
  \<open>i\<close>, the inner comprehension reads \<open>game_board[j][i]\<close> for every row \<open>j\<close>.\<close>

definition transposed :: "'a list list \<Rightarrow> py_error + 'a list list" where
  "transposed game_board =
     bind_err (getitem game_board 0) (\<lambda>row0.
       collect_err
         (map (\<lambda>i. collect_err
                     (map (\<lambda>j. bind_err (getitem game_board j) (\<lambda>row. getitem row i))
                          [0..<length game_board]))
              [0..<length row0]))"

definition get_vertical_counts :: "board \<Rightarrow> string \<Rightarrow> py_error + (nat, int) dict" where
  "get_vertical_counts game_board player_symbol =
     bind_err (transposed game_board) (\<lambda>t. Inr (get_horizontal_counts t player_symbol))"

subsection \<open>Line scoring\<close>

text \<open>The inner loop shared by both scoring functions: every possible move that lies
  on the line is assigned the line's count.\<close>

definition assign_line ::
  "int list \<Rightarrow> int \<Rightarrow> int list \<Rightarrow> (int, int) dict \<Rightarrow> (int, int) dict" where
  "assign_line line appearance_count possible_moves best_moves =
     fold (\<lambda>move best. if move \<in> set line then dict_set best move appearance_count else best)
          possible_moves best_moves"

text \<open>The outer loop over the items of \<open>sorted_fields\<close>. The subscript
  \<open>lines[index]\<close> is evaluated once per possible move, so it can only raise when
  there is a possible move.\<close>

fun score_lines ::
  "int list list \<Rightarrow> (nat, int) dict \<Rightarrow> int list \<Rightarrow> (int, int) dict \<Rightarrow> py_error + (int, int) dict"
where
  "score_lines lines [] possible_moves best_moves = Inr best_moves"
| "score_lines lines ((index, appearance_count) # sorted_fields) possible_moves best_moves =
     (if possible_moves = [] then score_lines lines sorted_fields possible_moves best_moves
      else bind_err (getitem lines index) (\<lambda>line.
             score_lines lines sorted_fields possible_moves
               (assign_line line appearance_count possible_moves best_moves)))"

definition get_optimized_diagonal_moves ::
  "(nat, int) dict \<Rightarrow> int list \<Rightarrow> py_error + (int, int) dict" where
  "get_optimized_diagonal_moves sorted_fields possible_moves =
     (let diagonal_moves = [[1, 5, 9], [3, 5, 7]]
      in bind_err (score_lines diagonal_moves sorted_fields possible_moves [])
           (\<lambda>best_moves. Inr (sort_dictonary best_moves)))"

definition get_optimized_straight_moves ::
  "(nat, int) dict \<Rightarrow> int list \<Rightarrow> bool \<Rightarrow> py_error + (int, int) dict" where
  "get_optimized_straight_moves sorted_fields possible_moves horizontal =
     bind_err (if \<not> horizontal then transposed [[1, 2, 3], [4, 5, 6], [7, 8, 9]]
               else Inr [[1, 2, 3], [4, 5, 6], [7, 8, 9]])
       (\<lambda>all_moves. score_lines all_moves sorted_fields possible_moves [])"

subsection \<open>Merging and selection\<close>

text \<open>\<open>get_sorted_moves\<close>: \<open>combined_moves\<close> is a \<open>defaultdict(int)\<close>; the items of
  the first dictionary are merged in, then those of the second.\<close>

definition merge_item :: "int \<times> int \<Rightarrow> (int, int) dict \<Rightarrow> (int, int) dict" where
  "merge_item item combined_moves =
     dict_set combined_moves (fst item) (max (dict_get combined_moves (fst item) 0) (snd item))"

definition get_sorted_moves :: "(int, int) dict \<Rightarrow> (int, int) dict \<Rightarrow> (int, int) dict" where
  "get_sorted_moves optimized_horizontal_moves optimized_vertical_moves =
     sort_dictonary (fold merge_item (optimized_horizontal_moves @ optimized_vertical_moves) [])"

definition calc_optimized_move ::
  "(int set \<Rightarrow> int list) \<Rightarrow> board \<Rightarrow> string \<Rightarrow> py_error + (int, int) dict" where
  "calc_optimized_move order game_board player_symbol =
     (let possible_moves = get_possible_moves order game_board;
          sorted_horizontal_fields = get_horizontal_counts game_board player_symbol
      in bind_err (get_vertical_counts game_board player_symbol) (\<lambda>sorted_vertical_fields.
         bind_err (get_diagonal_counts game_board player_symbol) (\<lambda>sorted_diagonal_fields.
         bind_err (get_optimized_straight_moves sorted_horizontal_fields possible_moves True)
           (\<lambda>optimized_hori_moves.
         bind_err (get_optimized_straight_moves sorted_vertical_fields possible_moves False)
           (\<lambda>optimized_verti_moves.
         bind_err (get_optimized_diagonal_moves sorted_diagonal_fields possible_moves)
           (\<lambda>optimized_diag_moves.
         let optimized_diag_pref_moves = get_sorted_moves optimized_diag_moves optimized_verti_moves;
             optimized_final_moves = get_sorted_moves optimized_diag_pref_moves optimized_hori_moves
         in Inr optimized_final_moves))))))"

definition make_smart_move ::
  "(int set \<Rightarrow> int list) \<Rightarrow> board \<Rightarrow> string \<Rightarrow> string \<Rightarrow> py_error + int" where
  "make_smart_move order game_board player_symbol opponent_symbol =
     bind_err (calc_optimized_move order game_board player_symbol) (\<lambda>curr_player_optimized_moves.
     bind_err (calc_optimized_move order game_board opponent_symbol) (\<lambda>opponent_optimized_moves.
       let min_max_sorted_moves = get_sorted_moves curr_player_optimized_moves opponent_optimized_moves;
           final_moves = map fst min_max_sorted_moves
       in Inr (if final_moves \<noteq> [] then hd final_moves else - 1)))"

subsection \<open>The random move\<close>

text \<open>
  \<open>make_random_move\<close> draws \<open>random.randint(1, 9)\<close> until the draw is a possible
  move. The results of the successive calls of \<open>randint\<close> are a parameter, the sequence
  \<open>draws\<close>; the loop has no bound, so the function is partial and \<open>None\<close> stands for
  a run that never returns.
\<close>

partial_function (option) random_loop :: "(nat \<Rightarrow> int) \<Rightarrow> nat \<Rightarrow> int list \<Rightarrow> int option" where
  "random_loop draws n possible_moves =
     (if draws n \<in> set possible_moves then Some (draws n)
      else random_loop draws (Suc n) possible_moves)"

definition make_random_move ::
  "(int set \<Rightarrow> int list) \<Rightarrow> (nat \<Rightarrow> int) \<Rightarrow> board \<Rightarrow> int option" where
  "make_random_move order draws game_board =
     random_loop draws 0 (get_possible_moves order game_board)"

text \<open>The same loop run on a finite list of draws: \<open>None\<close> when it is still looping
  after the last of them.\<close>

fun loop_on :: "int list \<Rightarrow> int list \<Rightarrow> int option" where
  "loop_on [] possible_moves = None"
| "loop_on (random_move # ds) possible_moves =
     (if random_move \<in> set possible_moves then Some random_move else loop_on ds possible_moves)"

text \<open>
  \<open>randint(1, 9)\<close> returns each of 1..9 with the same probability, independently of
  the earlier draws: the \<open>9 ^ n\<close> sequences of \<open>n\<close> draws are equally likely.
  \<open>returned\<close> counts those on which the loop has returned the move \<open>m\<close>,
  \<open>still_looping\<close> those on which it has not returned.
\<close>

fun draw_sequences :: "nat \<Rightarrow> int list list" where
  "draw_sequences 0 = [[]]"
| "draw_sequences (Suc n) = concat (map (\<lambda>d. map (\<lambda>ds. d # ds) (draw_sequences n)) [1..9])"

definition returned :: "int list \<Rightarrow> nat \<Rightarrow> int \<Rightarrow> nat" where
  "returned possible_moves n m =
     length (filter (\<lambda>ds. loop_on ds possible_moves = Some m) (draw_sequences n))"

definition still_looping :: "int list \<Rightarrow> nat \<Rightarrow> nat" where
  "still_looping possible_moves n =
     length (filter (\<lambda>ds. loop_on ds possible_moves = None) (draw_sequences n))"

subsection \<open>Well-formed boards, cells and lines\<close>

text \<open>The grid the game plays on: three rows of three cells.\<close>

definition board_3x3 :: "board \<Rightarrow> bool" where
  "board_3x3 game_board \<longleftrightarrow>
     length game_board = 3 \<and> (\<forall>row \<in> set game_board. length row = 3)"

text \<open>The cell alphabet of board.py: \<open>"_"\<close> is the empty field.\<close>

definition valid_cells :: "board \<Rightarrow> bool" where
  "valid_cells game_board \<longleftrightarrow>
     (\<forall>row \<in> set game_board. \<forall>c \<in> set row. c = ''_'' \<or> c = ''X'' \<or> c = ''O'')"

text \<open>\<open>check_draw\<close> of board.py: no cell of the board is the empty field.\<close>

definition check_draw :: "board \<Rightarrow> bool" where
  "check_draw game_board \<longleftrightarrow>
     (\<forall>row \<in> set game_board. \<forall>cell \<in> set row. cell \<noteq> ''_'')"

text \<open>The cell a move refers to, as \<open>make_move\<close> of board.py addresses it:
  \<open>row = (move - 1) // 3\<close>, \<open>col = (move - 1) % 3\<close>.\<close>

definition cell_at :: "board \<Rightarrow> int \<Rightarrow> string" where
  "cell_at game_board move =
     game_board ! nat ((move - 1) div 3) ! nat ((move - 1) mod 3)"

text \<open>The number of cells of a line (a list of moves) that hold the symbol.\<close>

definition line_count :: "board \<Rightarrow> string \<Rightarrow> int list \<Rightarrow> int" where
  "line_count game_board player_symbol line =
     int (length (filter (\<lambda>move. cell_at game_board move = player_symbol) line))"

text \<open>The three line families, with the move triples the scoring functions use for
  them, and the priority map \<open>calc_optimized_move\<close> computes for each family.\<close>

datatype family = Rows | Columns | Diagonals

fun family_lines :: "family \<Rightarrow> int list list" where
  "family_lines Rows = [[1, 2, 3], [4, 5, 6], [7, 8, 9]]"
| "family_lines Columns = [[1, 4, 7], [2, 5, 8], [3, 6, 9]]"
| "family_lines Diagonals = [[1, 5, 9], [3, 5, 7]]"

text \<open>The counts \<open>calc_optimized_move\<close> hands to the scoring loop of each family.\<close>

fun family_counts :: "board \<Rightarrow> string \<Rightarrow> family \<Rightarrow> py_error + (nat, int) dict" where
  "family_counts b s Rows = Inr (get_horizontal_counts b s)"
| "family_counts b s Columns = get_vertical_counts b s"
| "family_counts b s Diagonals = get_diagonal_counts b s"

fun family_priority ::
  "(int set \<Rightarrow> int list) \<Rightarrow> board \<Rightarrow> string \<Rightarrow> family \<Rightarrow> py_error + (int, int) dict" where
  "family_priority order game_board player_symbol Rows =
     get_optimized_straight_moves (get_horizontal_counts game_board player_symbol)
       (get_possible_moves order game_board) True"
| "family_priority order game_board player_symbol Columns =
     bind_err (get_vertical_counts game_board player_symbol) (\<lambda>sorted_vertical_fields.
       get_optimized_straight_moves sorted_vertical_fields
         (get_possible_moves order game_board) False)"
| "family_priority order game_board player_symbol Diagonals =
     bind_err (get_diagonal_counts game_board player_symbol) (\<lambda>sorted_diagonal_fields.
       get_optimized_diagonal_moves sorted_diagonal_fields
         (get_possible_moves order game_board))"

text \<open>A priority map: a dictionary (distinct keys) from moves to non-negative scores.\<close>

definition priority_map :: "(int, int) dict \<Rightarrow> bool" where
  "priority_map d \<longleftrightarrow> distinct (map fst d) \<and> (\<forall>item \<in> set d. 0 \<le> snd item)"

subsection \<open>The board as an object of the store\<close>

text \<open>
  In Python the board is a list object whose items refer to the row objects, and every
  function receives a reference to it. To state what a call does to the board, the
  functions that receive the board are modelled a second time over an explicit store.
  A value is a string or a reference to a list object; the store maps the addresses
  below \<open>top\<close> to the items of the list objects allocated so far. The lists and
  dictionaries a function builds and keeps to itself (\<open>elements\<close>, \<open>best_moves\<close>,
  \<open>all_moves\<close>, ...) stay values of the model: nothing else refers to them.
\<close>

datatype pyval = Str string | Ref nat

datatype heap = Heap (objs: "nat \<Rightarrow> pyval list") (top: nat)

type_synonym 'a st = "heap \<Rightarrow> (py_error + 'a) \<times> heap"

definition return_st :: "'a \<Rightarrow> 'a st" where
  "return_st x = (\<lambda>h. (Inr x, h))"

definition bind_st :: "'a st \<Rightarrow> ('a \<Rightarrow> 'b st) \<Rightarrow> 'b st" where
  "bind_st m f = (\<lambda>h. case m h of (Inl e, h') \<Rightarrow> (Inl e, h') | (Inr x, h') \<Rightarrow> f x h')"

text \<open>A computation on local values only.\<close>

definition pure_st :: "py_error + 'a \<Rightarrow> 'a st" where
  "pure_st r = (\<lambda>h. (r, h))"

text \<open>\<open>len(v)\<close> and \<open>v[i]\<close>: both read the store; a string is a sequence of
  one-character strings.\<close>

definition len_st :: "pyval \<Rightarrow> nat st" where
  "len_st v = (\<lambda>h. (Inr (case v of Str s \<Rightarrow> length s | Ref a \<Rightarrow> length (objs h a)), h))"

definition getitem_st :: "pyval \<Rightarrow> nat \<Rightarrow> pyval st" where
  "getitem_st v i =
     (\<lambda>h. (case v of Str s \<Rightarrow> getitem (map (\<lambda>c. Str [c]) s) i | Ref a \<Rightarrow> getitem (objs h a) i, h))"

text \<open>A list display or comprehension allocates a new list object.\<close>

definition new_list_st :: "pyval list \<Rightarrow> pyval st" where
  "new_list_st items =
     (\<lambda>h. (Inr (Ref (top h)), Heap ((objs h)(top h := items)) (Suc (top h))))"

text \<open>A \<open>for\<close> loop that updates local variables, and a list comprehension.\<close>

fun for_st :: "'i list \<Rightarrow> ('i \<Rightarrow> 's \<Rightarrow> 's st) \<Rightarrow> 's \<Rightarrow> 's st" where
  "for_st [] body s = return_st s"
| "for_st (x # xs) body s = bind_st (body x s) (for_st xs body)"

fun map_st :: "('i \<Rightarrow> 'a st) \<Rightarrow> 'i list \<Rightarrow> 'a list st" where
  "map_st f [] = return_st []"
| "map_st f (x # xs) = bind_st (f x) (\<lambda>y. bind_st (map_st f xs) (\<lambda>ys. return_st (y # ys)))"

definition get_player_fields_st :: "pyval \<Rightarrow> string \<Rightarrow> int list st" where
  "get_player_fields_st game_board player_symbol =
     bind_st (len_st game_board) (\<lambda>n.
     bind_st
       (for_st [0..<n]
          (\<lambda>row_index (elements, prev_rows).
             bind_st (getitem_st game_board row_index) (\<lambda>row.
             bind_st (len_st row) (\<lambda>m.
             bind_st
               (for_st [0..<m]
                  (\<lambda>col_index elements.
                     bind_st (getitem_st game_board row_index) (\<lambda>row.
                     bind_st (getitem_st row col_index) (\<lambda>cell.
                       return_st
                         (if cell = Str player_symbol
                          then elements @ [int (row_index + prev_rows + col_index + 1)]
                          else elements))))
                  elements)
               (\<lambda>elements. return_st (elements, prev_rows + 2)))))
          ([], 0))
       (\<lambda>(elements, prev_rows). return_st elements))"

definition get_possible_moves_st :: "(int set \<Rightarrow> int list) \<Rightarrow> pyval \<Rightarrow> int list st" where
  "get_possible_moves_st order game_board =
     bind_st (get_player_fields_st game_board ''X'') (\<lambda>occupied_fields_other.
     bind_st (get_player_fields_st game_board ''O'') (\<lambda>occupied_fields_KI.
       return_st (order ({1..9} - set (occupied_fields_other @ occupied_fields_KI)))))"

definition get_diagonal_counts_st :: "pyval \<Rightarrow> string \<Rightarrow> (nat, int) dict st" where
  "get_diagonal_counts_st game_board player_symbol =
     bind_st
       (for_st [0..<3]
          (\<lambda>i (count_diag1, count_diag2).
             bind_st (getitem_st game_board i) (\<lambda>row.
             bind_st (getitem_st row i) (\<lambda>c1.
             bind_st (getitem_st game_board i) (\<lambda>row.
             bind_st (getitem_st row (2 - i)) (\<lambda>c2.
               return_st
                 (if c1 = Str player_symbol then count_diag1 + 1 else count_diag1,
                  if c2 = Str player_symbol then count_diag2 + 1 else count_diag2))))))
          (0, 0))
       (\<lambda>(count_diag1, count_diag2). return_st [(0, count_diag1), (1, count_diag2)])"

definition get_horizontal_counts_st :: "pyval \<Rightarrow> string \<Rightarrow> (nat, int) dict st" where
  "get_horizontal_counts_st game_board player_symbol =
     bind_st (len_st game_board) (\<lambda>n.
     bind_st
       (for_st [0..<n]
          (\<lambda>row_index count_each_row.
             bind_st (getitem_st game_board row_index) (\<lambda>row.
             bind_st (len_st row) (\<lambda>m.
             bind_st
               (for_st [0..<m]
                  (\<lambda>col_index num_of_appearances.
                     bind_st (getitem_st game_board row_index) (\<lambda>row.
                     bind_st (getitem_st row col_index) (\<lambda>cell.
                       return_st
                         (if cell = Str player_symbol then num_of_appearances + 1
                          else num_of_appearances))))
                  0)
               (\<lambda>num_of_appearances.
                  return_st (dict_set count_each_row row_index num_of_appearances)))))
          [])
       (\<lambda>count_each_row. return_st (sort_dictonary count_each_row)))"

definition transposed_st :: "pyval \<Rightarrow> pyval st" where
  "transposed_st game_board =
     bind_st (getitem_st game_board 0) (\<lambda>row0.
     bind_st (len_st row0) (\<lambda>n.
     bind_st
       (map_st
          (\<lambda>i. bind_st (len_st game_board) (\<lambda>m.
               bind_st
                 (map_st (\<lambda>j. bind_st (getitem_st game_board j) (\<lambda>row. getitem_st row i))
                    [0..<m])
                 new_list_st))
          [0..<n])
       new_list_st))"

definition get_vertical_counts_st :: "pyval \<Rightarrow> string \<Rightarrow> (nat, int) dict st" where
  "get_vertical_counts_st game_board player_symbol =
     bind_st (transposed_st game_board) (\<lambda>t. get_horizontal_counts_st t player_symbol)"

definition calc_optimized_move_st ::
  "(int set \<Rightarrow> int list) \<Rightarrow> pyval \<Rightarrow> string \<Rightarrow> (int, int) dict st" where
  "calc_optimized_move_st order game_board player_symbol =
     bind_st (get_possible_moves_st order game_board) (\<lambda>possible_moves.
     bind_st (get_horizontal_counts_st game_board player_symbol) (\<lambda>sorted_horizontal_fields.
     bind_st (get_vertical_counts_st game_board player_symbol) (\<lambda>sorted_vertical_fields.
     bind_st (get_diagonal_counts_st game_board player_symbol) (\<lambda>sorted_diagonal_fields.
     pure_st
       (bind_err (get_optimized_straight_moves sorted_horizontal_fields possible_moves True)
          (\<lambda>optimized_hori_moves.
        bind_err (get_optimized_straight_moves sorted_vertical_fields possible_moves False)
          (\<lambda>optimized_verti_moves.
        bind_err (get_optimized_diagonal_moves sorted_diagonal_fields possible_moves)
          (\<lambda>optimized_diag_moves.
        Inr (get_sorted_moves (get_sorted_moves optimized_diag_moves optimized_verti_moves)
               optimized_hori_moves)))))))))"

definition make_smart_move_st ::
  "(int set \<Rightarrow> int list) \<Rightarrow> pyval \<Rightarrow> string \<Rightarrow> string \<Rightarrow> int st" where
  "make_smart_move_st order game_board player_symbol opponent_symbol =
     bind_st (calc_optimized_move_st order game_board player_symbol)
       (\<lambda>curr_player_optimized_moves.
     bind_st (calc_optimized_move_st order game_board opponent_symbol)
       (\<lambda>opponent_optimized_moves.
       let final_moves =
             map fst (get_sorted_moves curr_player_optimized_moves opponent_optimized_moves)
       in return_st (if final_moves \<noteq> [] then hd final_moves else - 1)))"

text \<open>\<open>extends h h'\<close>: every object of \<open>h\<close> is an object of \<open>h'\<close> with the same
  items; \<open>h'\<close> may hold more objects.\<close>

definition extends :: "heap \<Rightarrow> heap \<Rightarrow> bool" where
  "extends h h' \<longleftrightarrow> top h \<le> top h' \<and> (\<forall>a < top h. objs h' a = objs h a)"

text \<open>\<open>board_at h v b\<close>: in the store \<open>h\<close> the value \<open>v\<close> refers to a list of
  references to lists of strings, whose contents are the rows of \<open>b\<close>.\<close>

definition board_at :: "heap \<Rightarrow> pyval \<Rightarrow> board \<Rightarrow> bool" where
  "board_at h v b \<longleftrightarrow>
     (\<exists>g rs. v = Ref g \<and> g < top h \<and> objs h g = map Ref rs \<and> length rs = length b \<and>
        (\<forall>i < length b. rs ! i < top h \<and> objs h (rs ! i) = map Str (b ! i)))"

text \<open>\<open>new_grid h h' v\<close>: \<open>v\<close> refers to a list object of \<open>h'\<close> that \<open>h\<close> did not
  hold, and so do all its items.\<close>

definition new_grid :: "heap \<Rightarrow> heap \<Rightarrow> pyval \<Rightarrow> bool" where
  "new_grid h h' v \<longleftrightarrow>
     (\<exists>g rs. v = Ref g \<and> top h \<le> g \<and> g < top h' \<and> objs h' g = map Ref rs \<and>
        (\<forall>r \<in> set rs. top h \<le> r \<and> r < top h'))"

text \<open>A computation that returns the store it was given, and one that at most adds
  objects to it.\<close>

definition reads_only :: "'a st \<Rightarrow> bool" where
  "reads_only m \<longleftrightarrow> (\<forall>h. snd (m h) = h)"

definition preserves :: "'a st \<Rightarrow> bool" where
  "preserves m \<longleftrightarrow> (\<forall>h. extends h (snd (m h)))"

text \<open>A store for concrete runs: the rows of the board
  \<open>[["X","O","O"],["_","_","_"],["_","_","X"]]\<close> at the addresses 0, 1 and 2 and the
  list of the rows at address 3.\<close>

definition example_heap :: heap where
  "example_heap =
     Heap (\<lambda>a. if a = 0 then [Str ''X'', Str ''O'', Str ''O'']
               else if a = 1 then [Str ''_'', Str ''_'', Str ''_'']
               else if a = 2 then [Str ''_'', Str ''_'', Str ''X'']
               else if a = 3 then [Ref 0, Ref 1, Ref 2]
               else [])
          4"

section \<open>Properties\<close>

subsection \<open>Dictionaries and the scoring loops\<close>

lemma bind_err_Inr [simp]: "bind_err (Inr x) f = f x"
  by (simp add: bind_err_def)

lemma bind_err_Inl [simp]: "bind_err (Inl e) f = Inl e"
  by (simp add: bind_err_def)

lemma map_of_dict_set: "map_of (dict_set d k v) = (map_of d)(k \<mapsto> v)"
  by (induction d k v rule: dict_set.induct) auto

lemma keys_dict_set: "fst ` set (dict_set d k v) = insert k (fst ` set d)"
  by (induction d k v rule: dict_set.induct) auto

lemma distinct_dict_set:
  "distinct (map fst d) \<Longrightarrow> distinct (map fst (dict_set d k v))"
  by (induction d k v rule: dict_set.induct) (auto simp: keys_dict_set)

lemma map_of_assign_line:
  "map_of (assign_line line c pm best) m =
     (if m \<in> set pm \<and> m \<in> set line then Some c else map_of best m)"
  unfolding assign_line_def
  by (induction pm arbitrary: best) (auto simp: map_of_dict_set)

lemma keys_assign_line:
  "fst ` set (assign_line line c pm best) = fst ` set best \<union> (set pm \<inter> set line)"
  unfolding assign_line_def
  by (induction pm arbitrary: best) (auto simp: keys_dict_set)

lemma distinct_assign_line:
  "distinct (map fst best) \<Longrightarrow> distinct (map fst (assign_line line c pm best))"
  unfolding assign_line_def
  by (induction pm arbitrary: best) (auto simp: distinct_dict_set)

lemma assign_line_Nil [simp]: "assign_line line c [] best = best"
  by (simp add: assign_line_def)

lemma score_lines_in_range:
  "index < length lines \<Longrightarrow>
   score_lines lines ((index, c) # fields) pm best =
     score_lines lines fields pm (assign_line (lines ! index) c pm best)"
  by (simp add: getitem_def)

lemma score_lines_keys:
  "\<forall>i \<in> fst ` set fields. i < length lines \<Longrightarrow> distinct (map fst best) \<Longrightarrow>
   \<exists>d. score_lines lines fields pm best = Inr d \<and> distinct (map fst d) \<and>
       fst ` set d = fst ` set best \<union> (set pm \<inter> (\<Union>i \<in> fst ` set fields. set (lines ! i)))"
proof (induction fields arbitrary: best)
  case Nil
  then show ?case by simp
next
  case (Cons f fields)
  obtain i c where f: "f = (i, c)" by (cases f)
  from Cons.prems f have i: "i < length lines" by simp
  have d: "distinct (map fst (assign_line (lines ! i) c pm best))"
    using Cons.prems(2) by (rule distinct_assign_line)
  from Cons.prems(1) have "\<forall>i \<in> fst ` set fields. i < length lines" by simp
  from Cons.IH [OF this d] obtain d' where
    d': "score_lines lines fields pm (assign_line (lines ! i) c pm best) = Inr d'"
        "distinct (map fst d')"
        "fst ` set d' = fst ` set (assign_line (lines ! i) c pm best)
           \<union> (set pm \<inter> (\<Union>i \<in> fst ` set fields. set (lines ! i)))"
    by blast
  show ?case
    unfolding f score_lines_in_range [OF i]
    using d' by (auto simp: keys_assign_line)
qed

lemma score_lines_untouched:
  "\<forall>i \<in> fst ` set fields. i < length lines \<and> m \<notin> set (lines ! i) \<Longrightarrow>
   score_lines lines fields pm best = Inr d \<Longrightarrow> map_of d m = map_of best m"
proof (induction fields arbitrary: best)
  case Nil
  then show ?case by simp
next
  case (Cons f fields)
  obtain i c where f: "f = (i, c)" by (cases f)
  from Cons.prems f have i: "i < length lines" "m \<notin> set (lines ! i)" by simp_all
  from Cons.prems(2) have
    "score_lines lines fields pm (assign_line (lines ! i) c pm best) = Inr d"
    unfolding f score_lines_in_range [OF i(1)] .
  with Cons.IH [of "assign_line (lines ! i) c pm best"] Cons.prems(1)
  have "map_of d m = map_of (assign_line (lines ! i) c pm best) m" by simp
  with i(2) show ?case by (simp add: map_of_assign_line)
qed

lemma score_lines_value:
  assumes "distinct (map fst fields)"
    and "\<forall>i \<in> fst ` set fields. i < length lines"
    and "(i, c) \<in> set fields"
    and "m \<in> set pm" and "m \<in> set (lines ! i)"
    and "\<forall>j \<in> fst ` set fields. j \<noteq> i \<longrightarrow> m \<notin> set (lines ! j)"
    and "score_lines lines fields pm best = Inr d"
  shows "map_of d m = Some c"
  using assms
proof (induction fields arbitrary: best)
  case Nil
  then show ?case by simp
next
  case (Cons f fields)
  obtain j c' where f: "f = (j, c')" by (cases f)
  from Cons.prems(2) f have j: "j < length lines" by simp
  from Cons.prems(7) have run:
    "score_lines lines fields pm (assign_line (lines ! j) c' pm best) = Inr d"
    unfolding f score_lines_in_range [OF j] .
  show ?case
  proof (cases "(i, c) \<in> set fields")
    case True
    have "distinct (map fst fields)" using Cons.prems(1) by simp
    moreover have "\<forall>i \<in> fst ` set fields. i < length lines" using Cons.prems(2) by simp
    moreover have "\<forall>j \<in> fst ` set fields. j \<noteq> i \<longrightarrow> m \<notin> set (lines ! j)"
      using Cons.prems(6) by simp
    ultimately show ?thesis
      using Cons.IH [OF _ _ True Cons.prems(4,5) _ run] by blast
  next
    case False
    with Cons.prems(3) f have eq: "j = i" "c' = c" by auto
    have "i \<notin> fst ` set fields" using Cons.prems(1) f eq by auto
    have "\<forall>k \<in> fst ` set fields. k < length lines \<and> m \<notin> set (lines ! k)"
    proof
      fix k
      assume k: "k \<in> fst ` set fields"
      then have k': "k \<in> fst ` set (f # fields)" by auto
      from k \<open>i \<notin> fst ` set fields\<close> have "k \<noteq> i" by blast
      with k' Cons.prems(2,6) show "k < length lines \<and> m \<notin> set (lines ! k)" by blast
    qed
    from score_lines_untouched [OF this run]
    show ?thesis using eq Cons.prems(4,5) by (simp add: map_of_assign_line)
  qed
qed

lemma set_sort_dictonary [simp]: "set (sort_dictonary d) = set d"
  by (simp add: sort_dictonary_def)

lemma distinct_sort_dictonary [simp]:
  "distinct (map fst (sort_dictonary d)) = distinct (map fst d)"
  by (simp add: sort_dictonary_def distinct_map)

lemma map_of_sort_dictonary:
  "distinct (map fst d) \<Longrightarrow> map_of (sort_dictonary d) = map_of d"
  by (simp add: map_of_inject_set)

lemma sort_dictonary_Nil [simp]: "sort_dictonary [] = []"
  by (simp add: sort_dictonary_def)

subsection \<open>Boards of three rows of three cells\<close>

lemma board_3x3_explicit:
  assumes "board_3x3 b"
  obtains a1 a2 a3 a4 a5 a6 a7 a8 a9 where
    "b = [[a1, a2, a3], [a4, a5, a6], [a7, a8, a9]]"
proof -
  have len3: "\<exists>x y z. xs = [x, y, z]" if "length xs = 3" for xs :: "'a list"
    using that by (auto simp: numeral_3_eq_3 length_Suc_conv)
  from assms obtain r1 r2 r3 where b: "b = [r1, r2, r3]"
    unfolding board_3x3_def using len3 by blast
  with assms have "length r1 = 3" "length r2 = 3" "length r3 = 3"
    unfolding board_3x3_def by simp_all
  then obtain a1 a2 a3 a4 a5 a6 a7 a8 a9 where
    "r1 = [a1, a2, a3]" "r2 = [a4, a5, a6]" "r3 = [a7, a8, a9]"
    using len3 by metis
  with b that show thesis by blast
qed

lemma upt_3: "[0..<3] = [0, 1, 2]"
  by (simp add: numeral_3_eq_3 upt_rec)

lemma get_player_fields_grid:
  "get_player_fields [[a1, a2, a3], [a4, a5, a6], [a7, a8, a9]] s =
     (if a1 = s then [1] else []) @ (if a2 = s then [2] else []) @ (if a3 = s then [3] else []) @
     (if a4 = s then [4] else []) @ (if a5 = s then [5] else []) @ (if a6 = s then [6] else []) @
     (if a7 = s then [7] else []) @ (if a8 = s then [8] else []) @ (if a9 = s then [9] else [])"
  by (simp add: get_player_fields_def upt_3)

lemma cell_at_grid:
  "cell_at [[a1, a2, a3], [a4, a5, a6], [a7, a8, a9]] 1 = a1"
  "cell_at [[a1, a2, a3], [a4, a5, a6], [a7, a8, a9]] 2 = a2"
  "cell_at [[a1, a2, a3], [a4, a5, a6], [a7, a8, a9]] 3 = a3"
  "cell_at [[a1, a2, a3], [a4, a5, a6], [a7, a8, a9]] 4 = a4"
  "cell_at [[a1, a2, a3], [a4, a5, a6], [a7, a8, a9]] 5 = a5"
  "cell_at [[a1, a2, a3], [a4, a5, a6], [a7, a8, a9]] 6 = a6"
  "cell_at [[a1, a2, a3], [a4, a5, a6], [a7, a8, a9]] 7 = a7"
  "cell_at [[a1, a2, a3], [a4, a5, a6], [a7, a8, a9]] 8 = a8"
  "cell_at [[a1, a2, a3], [a4, a5, a6], [a7, a8, a9]] 9 = a9"
  by (simp_all add: cell_at_def)

lemma move_cases:
  "1 \<le> m \<Longrightarrow> m \<le> 9 \<Longrightarrow>
   m = 1 \<or> m = 2 \<or> m = 3 \<or> m = 4 \<or> m = 5 \<or> m = 6 \<or> m = 7 \<or> m = 8 \<or> m = (9::int)"
  by arith

lemma get_player_fields_cell:
  assumes "board_3x3 b"
  shows "m \<in> set (get_player_fields b s) \<longleftrightarrow> 1 \<le> m \<and> m \<le> 9 \<and> cell_at b m = s"
proof -
  from assms obtain a1 a2 a3 a4 a5 a6 a7 a8 a9 where
    b: "b = [[a1, a2, a3], [a4, a5, a6], [a7, a8, a9]]"
    by (rule board_3x3_explicit)
  have range: "1 \<le> m \<and> m \<le> 9" if "m \<in> set (get_player_fields b s)"
    using that unfolding b get_player_fields_grid by (auto split: if_splits)
  show ?thesis
  proof (cases "1 \<le> m \<and> m \<le> 9")
    case True
    then consider "m = 1" | "m = 2" | "m = 3" | "m = 4" | "m = 5" | "m = 6" | "m = 7"
      | "m = 8" | "m = 9"
      using move_cases by blast
    then show ?thesis
      unfolding b get_player_fields_grid
      by cases (simp_all add: cell_at_grid)
  next
    case False
    with range show ?thesis by blast
  qed
qed

lemma get_possible_moves_set:
  assumes "board_3x3 b" and "iteration_order order"
  shows "set (get_possible_moves order b) =
           {m. 1 \<le> m \<and> m \<le> 9 \<and> cell_at b m \<noteq> ''X'' \<and> cell_at b m \<noteq> ''O''}"
    and "distinct (get_possible_moves order b)"
proof -
  let ?S = "{1..9} - set (get_player_fields b ''X'' @ get_player_fields b ''O'')"
  have "finite ?S" by simp
  with assms(2) have "set (order ?S) = ?S" "distinct (order ?S)"
    unfolding iteration_order_def by blast+
  then show "set (get_possible_moves order b) =
           {m. 1 \<le> m \<and> m \<le> 9 \<and> cell_at b m \<noteq> ''X'' \<and> cell_at b m \<noteq> ''O''}"
    and "distinct (get_possible_moves order b)"
    using get_player_fields_cell [OF assms(1)]
    by (auto simp: get_possible_moves_def Let_def)
qed

lemma iteration_order_ascending: "iteration_order ascending"
  by (simp add: iteration_order_def ascending_def)

subsection \<open>Line counts on a board of three rows of three cells\<close>

lemma transposed_grid:
  "transposed [[a1, a2, a3], [a4, a5, a6], [a7, a8, a9]] =
     Inr [[a1, a4, a7], [a2, a5, a8], [a3, a6, a9]]"
  by (simp add: transposed_def getitem_def upt_3)

lemma less_3_cases: "i < (3::nat) \<Longrightarrow> i = 0 \<or> i = 1 \<or> i = 2"
  by arith

lemma less_2_cases: "i < (2::nat) \<Longrightarrow> i = 0 \<or> i = 1"
  by arith

lemma set_get_horizontal_counts:
  "set (get_horizontal_counts b s) =
     (\<lambda>i. (i, int (length (filter (\<lambda>c. b ! i ! c = s) [0..<length (b ! i)])))) ` {0..<length b}"
  by (simp add: get_horizontal_counts_def)

lemma distinct_get_horizontal_counts: "distinct (map fst (get_horizontal_counts b s))"
  by (simp add: get_horizontal_counts_def comp_def)

lemma row_count_grid:
  assumes "i < 3"
  shows "int (length (filter (\<lambda>c. [[a1, a2, a3], [a4, a5, a6], [a7, a8, a9]] ! i ! c = s)
                 [0..<length ([[a1, a2, a3], [a4, a5, a6], [a7, a8, a9]] ! i)])) =
         line_count [[a1, a2, a3], [a4, a5, a6], [a7, a8, a9]] s (family_lines Rows ! i)"
proof -
  from assms consider "i = 0" | "i = 1" | "i = 2" using less_3_cases by blast
  then show ?thesis
    by cases (simp_all add: line_count_def cell_at_grid upt_3)
qed

lemma column_count_grid:
  assumes "i < 3"
  shows "int (length (filter (\<lambda>c. [[a1, a4, a7], [a2, a5, a8], [a3, a6, a9]] ! i ! c = s)
                 [0..<length ([[a1, a4, a7], [a2, a5, a8], [a3, a6, a9]] ! i)])) =
         line_count [[a1, a2, a3], [a4, a5, a6], [a7, a8, a9]] s (family_lines Columns ! i)"
proof -
  from assms consider "i = 0" | "i = 1" | "i = 2" using less_3_cases by blast
  then show ?thesis
    by cases (simp_all add: line_count_def cell_at_grid upt_3)
qed

lemma get_diagonal_counts_grid:
  "get_diagonal_counts [[a1, a2, a3], [a4, a5, a6], [a7, a8, a9]] s =
     Inr [(0, line_count [[a1, a2, a3], [a4, a5, a6], [a7, a8, a9]] s [1, 5, 9]),
          (1, line_count [[a1, a2, a3], [a4, a5, a6], [a7, a8, a9]] s [3, 5, 7])]"
  by (simp add: get_diagonal_counts_def diagonal_step_def getitem_def line_count_def cell_at_grid)

lemma family_counts_3x3:
  assumes "board_3x3 b"
  shows "\<exists>fields. family_counts b s fam = Inr fields \<and> distinct (map fst fields) \<and>
           set fields = (\<lambda>i. (i, line_count b s (family_lines fam ! i))) `
                          {0..<length (family_lines fam)}"
proof -
  from assms obtain a1 a2 a3 a4 a5 a6 a7 a8 a9 where
    b: "b = [[a1, a2, a3], [a4, a5, a6], [a7, a8, a9]]"
    by (rule board_3x3_explicit)
  show ?thesis
  proof (cases fam)
    case Rows
    have len: "length b = 3" using assms by (simp add: board_3x3_def)
    have "set (get_horizontal_counts b s) =
            (\<lambda>i. (i, line_count b s (family_lines Rows ! i))) ` {0..<3}"
      unfolding set_get_horizontal_counts len
      by (rule image_cong) (simp_all add: b row_count_grid del: family_lines.simps)
    with Rows show ?thesis
      by (simp add: distinct_get_horizontal_counts numeral_3_eq_3)
  next
    case Columns
    let ?t = "[[a1, a4, a7], [a2, a5, a8], [a3, a6, a9]]"
    have v: "get_vertical_counts b s = Inr (get_horizontal_counts ?t s)"
      by (simp add: get_vertical_counts_def b transposed_grid)
    have len: "length ?t = 3" by simp
    have "set (get_horizontal_counts ?t s) =
            (\<lambda>i. (i, line_count b s (family_lines Columns ! i))) ` {0..<3}"
      unfolding set_get_horizontal_counts len
      by (rule image_cong) (simp_all add: b column_count_grid del: family_lines.simps)
    with Columns v show ?thesis
      by (simp add: distinct_get_horizontal_counts numeral_3_eq_3)
  next
    case Diagonals
    have "{0..<Suc (Suc 0)} = {0, Suc 0}" by auto
    with Diagonals show ?thesis
      unfolding b by (simp add: get_diagonal_counts_grid)
  qed
qed

subsection \<open>The priority map of one line family\<close>

lemma family_priority_score_lines:
  "family_priority order b s fam =
     bind_err (family_counts b s fam) (\<lambda>fields.
     bind_err (score_lines (family_lines fam) fields (get_possible_moves order b) [])
       (\<lambda>d. Inr (if fam = Diagonals then sort_dictonary d else d)))"
proof (cases fam)
  case Rows
  then show ?thesis
    by (simp add: get_optimized_straight_moves_def bind_err_def split: sum.splits)
next
  case Columns
  then show ?thesis
    by (simp add: get_optimized_straight_moves_def transposed_grid bind_err_def
        split: sum.splits)
next
  case Diagonals
  then show ?thesis
    by (simp add: get_optimized_diagonal_moves_def)
qed

lemma UN_nth_conv: "(\<Union>i \<in> {0..<length xs}. f (xs ! i)) = \<Union> (f ` set xs)"
proof -
  have "set xs = (\<lambda>i. xs ! i) ` {0..<length xs}"
    by (auto simp: in_set_conv_nth)
  then show ?thesis by (metis image_image)
qed

lemma family_priority_keys:
  assumes "board_3x3 b"
  shows "\<exists>d. family_priority order b s fam = Inr d \<and> distinct (map fst d) \<and>
           fst ` set d = set (get_possible_moves order b) \<inter> \<Union> (set ` set (family_lines fam))"
proof -
  from family_counts_3x3 [OF assms, of s fam] obtain fields where
    fields: "family_counts b s fam = Inr fields" "distinct (map fst fields)"
      "set fields = (\<lambda>i. (i, line_count b s (family_lines fam ! i))) `
                      {0..<length (family_lines fam)}"
    by blast
  have keys: "fst ` set fields = {0..<length (family_lines fam)}"
    unfolding fields(3) by (simp add: image_image)
  then have "\<forall>i \<in> fst ` set fields. i < length (family_lines fam)" by simp
  from score_lines_keys [OF this, of "[]" "get_possible_moves order b"]
  obtain d where d:
    "score_lines (family_lines fam) fields (get_possible_moves order b) [] = Inr d"
    "distinct (map fst d)"
    "fst ` set d = set (get_possible_moves order b) \<inter>
       (\<Union>i \<in> fst ` set fields. set (family_lines fam ! i))"
    by auto
  have "(\<Union>i \<in> fst ` set fields. set (family_lines fam ! i)) = \<Union> (set ` set (family_lines fam))"
    unfolding keys by (rule UN_nth_conv)
  with d fields(1) show ?thesis
    by (simp add: family_priority_score_lines del: family_priority.simps family_lines.simps)
qed

lemma family_lines_disjoint:
  assumes "i < length (family_lines fam)" and "j < length (family_lines fam)" and "j \<noteq> i"
    and "m \<in> set (family_lines fam ! i)" and "fam = Diagonals \<longrightarrow> m \<noteq> 5"
  shows "m \<notin> set (family_lines fam ! j)"
proof (cases fam)
  case Rows
  with assms(1,2) have "i = 0 \<or> i = 1 \<or> i = 2" "j = 0 \<or> j = 1 \<or> j = 2"
    by (auto dest: less_3_cases)
  with assms(3,4) Rows show ?thesis by auto
next
  case Columns
  with assms(1,2) have "i = 0 \<or> i = 1 \<or> i = 2" "j = 0 \<or> j = 1 \<or> j = 2"
    by (auto dest: less_3_cases)
  with assms(3,4) Columns show ?thesis by auto
next
  case Diagonals
  with assms(1,2) have "i = 0 \<or> i = 1" "j = 0 \<or> j = 1"
    by (auto dest: less_2_cases)
  with assms(3,4,5) Diagonals show ?thesis by auto
qed

lemma family_priority_value:
  assumes "board_3x3 b"
    and "line \<in> set (family_lines fam)" and "m \<in> set line"
    and "m \<in> set (get_possible_moves order b)"
    and "fam = Diagonals \<longrightarrow> m \<noteq> 5"
  shows "\<exists>d. family_priority order b s fam = Inr d \<and> map_of d m = Some (line_count b s line)"
proof -
  let ?lines = "family_lines fam" and ?pm = "get_possible_moves order b"
  from family_counts_3x3 [OF assms(1), of s fam] obtain fields where
    fields: "family_counts b s fam = Inr fields" "distinct (map fst fields)"
      "set fields = (\<lambda>i. (i, line_count b s (?lines ! i))) ` {0..<length ?lines}"
    by blast
  have keys: "fst ` set fields = {0..<length ?lines}"
    unfolding fields(3) by (simp add: image_image)
  then have range: "\<forall>i \<in> fst ` set fields. i < length ?lines" by simp
  from score_lines_keys [OF range, of "[]" ?pm]
  obtain d where d: "score_lines ?lines fields ?pm [] = Inr d" "distinct (map fst d)"
    by auto
  from assms(2) obtain i where i: "i < length ?lines" "line = ?lines ! i"
    by (auto simp: in_set_conv_nth)
  have item: "(i, line_count b s line) \<in> set fields"
    unfolding fields(3) using i by auto
  have other: "\<forall>j \<in> fst ` set fields. j \<noteq> i \<longrightarrow> m \<notin> set (?lines ! j)"
    unfolding keys using family_lines_disjoint [OF i(1) _ _ _ assms(5)] assms(3) i(2) by auto
  have "map_of d m = Some (line_count b s line)"
    using score_lines_value [OF fields(2) range item assms(4) _ other d(1)] assms(3) i(2)
    by simp
  then have "map_of (if fam = Diagonals then sort_dictonary d else d) m =
               Some (line_count b s line)"
    using d(2) by (simp add: map_of_sort_dictonary)
  with d(1) fields(1) show ?thesis
    by (simp add: family_priority_score_lines del: family_priority.simps family_lines.simps)
qed

subsection \<open>Merging two priority maps\<close>

lemma keys_merge_item: "fst ` set (merge_item item c) = insert (fst item) (fst ` set c)"
  by (simp add: merge_item_def keys_dict_set)

lemma distinct_merge_item:
  "distinct (map fst c) \<Longrightarrow> distinct (map fst (merge_item item c))"
  by (simp add: merge_item_def distinct_dict_set)

lemma dict_get_merge_item:
  "dict_get (merge_item item c) k 0 =
     (if fst item = k then max (dict_get c k 0) (snd item) else dict_get c k 0)"
  by (simp add: merge_item_def dict_get_def map_of_dict_set)

lemma keys_fold_merge_item:
  "fst ` set (fold merge_item xs c) = fst ` set c \<union> fst ` set xs"
  by (induction xs arbitrary: c) (auto simp: keys_merge_item)

lemma distinct_fold_merge_item:
  "distinct (map fst c) \<Longrightarrow> distinct (map fst (fold merge_item xs c))"
  by (induction xs arbitrary: c) (auto simp: distinct_merge_item)

lemma dict_get_absent: "k \<notin> fst ` set d \<Longrightarrow> dict_get d k dflt = dflt"
proof -
  assume "k \<notin> fst ` set d"
  then have "map_of d k = None" by (simp add: map_of_eq_None_iff)
  then show ?thesis by (simp add: dict_get_def)
qed

lemma dict_get_Cons:
  "dict_get ((k', v) # d) k dflt = (if k' = k then v else dict_get d k dflt)"
  by (simp add: dict_get_def)

lemma dict_get_fold_merge_item:
  "distinct (map fst xs) \<Longrightarrow>
   dict_get (fold merge_item xs c) k 0 =
     (if k \<in> fst ` set xs then max (dict_get c k 0) (dict_get xs k 0) else dict_get c k 0)"
proof (induction xs arbitrary: c)
  case Nil
  then show ?case by simp
next
  case (Cons x xs)
  obtain k' v where x: "x = (k', v)" by (cases x)
  from Cons.prems have d: "distinct (map fst xs)" and k': "k' \<notin> fst ` set xs"
    by (simp_all add: x)
  show ?case
  proof (cases "k' = k")
    case True
    with k' have "k \<notin> fst ` set xs" by simp
    with True show ?thesis
      by (simp add: Cons.IH [OF d] x dict_get_merge_item dict_get_Cons)
  next
    case False
    then show ?thesis
      by (simp add: Cons.IH [OF d] x dict_get_merge_item dict_get_Cons)
  qed
qed

lemma map_of_dict_get:
  "map_of d k = (if k \<in> fst ` set d then Some (dict_get d k dflt) else None)"
  by (auto simp: dict_get_def map_of_eq_None_iff split: option.splits)

lemma keys_get_sorted_moves:
  "fst ` set (get_sorted_moves a b) = fst ` set a \<union> fst ` set b"
  by (simp add: get_sorted_moves_def keys_fold_merge_item image_Un)

lemma distinct_get_sorted_moves: "distinct (map fst (get_sorted_moves a b))"
  by (simp add: get_sorted_moves_def distinct_fold_merge_item)

lemma dict_get_get_sorted_moves:
  assumes "distinct (map fst a)" and "distinct (map fst b)"
  shows "dict_get (get_sorted_moves a b) k 0 = max 0 (max (dict_get a k 0) (dict_get b k 0))"
proof -
  have "dict_get (get_sorted_moves a b) k 0 = dict_get (fold merge_item (a @ b) []) k 0"
    by (simp add: get_sorted_moves_def dict_get_def map_of_sort_dictonary
        distinct_fold_merge_item)
  also have "\<dots> = max 0 (max (dict_get a k 0) (dict_get b k 0))"
    using assms
    by (auto simp: dict_get_fold_merge_item dict_get_absent dict_get_def [of "[]"] max_def)
  finally show ?thesis .
qed

lemma map_of_get_sorted_moves:
  assumes "distinct (map fst a)" and "distinct (map fst b)"
  shows "map_of (get_sorted_moves a b) k =
           (if k \<in> fst ` set a \<union> fst ` set b
            then Some (max 0 (max (dict_get a k 0) (dict_get b k 0))) else None)"
  using map_of_dict_get [of "get_sorted_moves a b" k 0]
  by (simp add: keys_get_sorted_moves dict_get_get_sorted_moves [OF assms])

subsection \<open>The result of calc\_optimized\_move and make\_smart\_move\<close>

lemma possible_moves_on_rows:
  assumes "board_3x3 b" and "iteration_order order"
  shows "set (get_possible_moves order b) \<inter> \<Union> (set ` set (family_lines Rows)) =
           set (get_possible_moves order b)"
proof -
  have "m \<in> \<Union> (set ` set (family_lines Rows))" if "1 \<le> m" "m \<le> 9" for m :: int
    using move_cases [OF that] by auto
  then have "set (get_possible_moves order b) \<subseteq> \<Union> (set ` set (family_lines Rows))"
    unfolding get_possible_moves_set(1) [OF assms] by blast
  then show ?thesis by (rule Int_absorb2)
qed

lemma calc_optimized_move_families:
  assumes "family_priority order b s Rows = Inr dr"
    and "family_priority order b s Columns = Inr dc"
    and "family_priority order b s Diagonals = Inr dd"
  shows "calc_optimized_move order b s = Inr (get_sorted_moves (get_sorted_moves dd dc) dr)"
proof -
  from assms(2) obtain vf where vf: "get_vertical_counts b s = Inr vf"
    by (cases "get_vertical_counts b s") simp_all
  from assms(3) obtain df where df: "get_diagonal_counts b s = Inr df"
    by (cases "get_diagonal_counts b s") simp_all
  from assms vf df show ?thesis
    by (simp add: calc_optimized_move_def Let_def)
qed

lemma calc_optimized_move_keys:
  assumes "board_3x3 b" and "iteration_order order"
  shows "\<exists>d. calc_optimized_move order b s = Inr d \<and> distinct (map fst d) \<and>
           fst ` set d = set (get_possible_moves order b)"
proof -
  let ?pm = "set (get_possible_moves order b)"
  from family_priority_keys [OF assms(1), of order s Rows] obtain dr where
    dr: "family_priority order b s Rows = Inr dr"
        "fst ` set dr = ?pm \<inter> \<Union> (set ` set (family_lines Rows))" by blast
  from family_priority_keys [OF assms(1), of order s Columns] obtain dc where
    dc: "family_priority order b s Columns = Inr dc"
        "fst ` set dc = ?pm \<inter> \<Union> (set ` set (family_lines Columns))" by blast
  from family_priority_keys [OF assms(1), of order s Diagonals] obtain dd where
    dd: "family_priority order b s Diagonals = Inr dd"
        "fst ` set dd = ?pm \<inter> \<Union> (set ` set (family_lines Diagonals))" by blast
  have r: "fst ` set dr = ?pm"
    unfolding dr(2) by (rule possible_moves_on_rows [OF assms])
  have c: "fst ` set dc \<subseteq> ?pm"
    unfolding dc(2) by (rule Int_lower1)
  have d: "fst ` set dd \<subseteq> ?pm"
    unfolding dd(2) by (rule Int_lower1)
  have "fst ` set (get_sorted_moves (get_sorted_moves dd dc) dr) = ?pm"
    unfolding keys_get_sorted_moves r using c d by blast
  with calc_optimized_move_families [OF dr(1) dc(1) dd(1)] show ?thesis
    by (simp add: distinct_get_sorted_moves)
qed

lemma make_smart_move_3x3:
  assumes "board_3x3 b" and "iteration_order order"
  shows "\<exists>final :: (int, int) dict. make_smart_move order b p q =
                   Inr (if map fst final \<noteq> [] then hd (map fst final) else - 1) \<and>
                 fst ` set final = set (get_possible_moves order b)"
proof -
  from calc_optimized_move_keys [OF assms, of p] obtain cur where
    cur: "calc_optimized_move order b p = Inr cur"
         "fst ` set cur = set (get_possible_moves order b)" by blast
  from calc_optimized_move_keys [OF assms, of q] obtain opp where
    opp: "calc_optimized_move order b q = Inr opp"
         "fst ` set opp = set (get_possible_moves order b)" by blast
  have "make_smart_move order b p q =
          Inr (if map fst (get_sorted_moves cur opp) \<noteq> []
               then hd (map fst (get_sorted_moves cur opp)) else - 1)"
    by (simp add: make_smart_move_def cur(1) opp(1) Let_def)
  moreover have "fst ` set (get_sorted_moves cur opp) = set (get_possible_moves order b)"
    by (simp add: keys_get_sorted_moves cur(2) opp(2))
  ultimately have
    "make_smart_move order b p q =
       Inr (if map fst (get_sorted_moves cur opp) \<noteq> []
            then hd (map fst (get_sorted_moves cur opp)) else - 1) \<and>
     fst ` set (get_sorted_moves cur opp) = set (get_possible_moves order b)"
    by (rule conjI)
  then show ?thesis by (rule exI)
qed

lemma make_smart_move_result:
  assumes "board_3x3 b" and "iteration_order order"
  shows "(get_possible_moves order b = [] \<and> make_smart_move order b p q = Inr (- 1)) \<or>
         (\<exists>m \<in> set (get_possible_moves order b). make_smart_move order b p q = Inr m)"
proof -
  from make_smart_move_3x3 [OF assms, of p q] obtain final :: "(int, int) dict" where
    final: "make_smart_move order b p q =
              Inr (if map fst final \<noteq> [] then hd (map fst final) else - 1)"
           "fst ` set final = set (get_possible_moves order b)" by blast
  show ?thesis
  proof (cases "final = []")
    case True
    with final show ?thesis by simp
  next
    case False
    then have "hd (map fst final) \<in> fst ` set final"
      by (cases final) simp_all
    with False final show ?thesis by simp
  qed
qed

lemma empty_cell_move:
  assumes "board_3x3 b" and "row \<in> set b" and "c \<in> set row"
  shows "\<exists>m. 1 \<le> m \<and> m \<le> 9 \<and> cell_at b m = c"
proof -
  from assms(1) obtain a1 a2 a3 a4 a5 a6 a7 a8 a9 where
    b: "b = [[a1, a2, a3], [a4, a5, a6], [a7, a8, a9]]"
    by (rule board_3x3_explicit)
  from assms(2,3) have "c = a1 \<or> c = a2 \<or> c = a3 \<or> c = a4 \<or> c = a5 \<or> c = a6 \<or> c = a7
      \<or> c = a8 \<or> c = a9"
    unfolding b by auto
  then consider "c = a1" | "c = a2" | "c = a3" | "c = a4" | "c = a5" | "c = a6" | "c = a7"
    | "c = a8" | "c = a9" by blast
  then show ?thesis
  proof cases
    case 1 then show ?thesis unfolding b by (intro exI [of _ 1]) (simp add: cell_at_grid)
  next
    case 2 then show ?thesis unfolding b by (intro exI [of _ 2]) (simp add: cell_at_grid)
  next
    case 3 then show ?thesis unfolding b by (intro exI [of _ 3]) (simp add: cell_at_grid)
  next
    case 4 then show ?thesis unfolding b by (intro exI [of _ 4]) (simp add: cell_at_grid)
  next
    case 5 then show ?thesis unfolding b by (intro exI [of _ 5]) (simp add: cell_at_grid)
  next
    case 6 then show ?thesis unfolding b by (intro exI [of _ 6]) (simp add: cell_at_grid)
  next
    case 7 then show ?thesis unfolding b by (intro exI [of _ 7]) (simp add: cell_at_grid)
  next
    case 8 then show ?thesis unfolding b by (intro exI [of _ 8]) (simp add: cell_at_grid)
  next
    case 9 then show ?thesis unfolding b by (intro exI [of _ 9]) (simp add: cell_at_grid)
  qed
qed

lemma cell_at_in_board:
  assumes "board_3x3 b" and "1 \<le> m" and "m \<le> 9"
  shows "\<exists>row \<in> set b. cell_at b m \<in> set row"
proof -
  from assms(1) obtain a1 a2 a3 a4 a5 a6 a7 a8 a9 where
    b: "b = [[a1, a2, a3], [a4, a5, a6], [a7, a8, a9]]"
    by (rule board_3x3_explicit)
  from move_cases [OF assms(2,3)] consider "m = 1" | "m = 2" | "m = 3" | "m = 4" | "m = 5"
    | "m = 6" | "m = 7" | "m = 8" | "m = 9" by blast
  then show ?thesis
    unfolding b by cases (simp_all add: cell_at_grid)
qed

subsection \<open>Legality, exhaustion and completeness of the score map\<close>

lemma empty_move_iff:
  assumes "board_3x3 b" and "valid_cells b" and "1 \<le> m" and "m \<le> 9"
  shows "cell_at b m \<noteq> ''X'' \<and> cell_at b m \<noteq> ''O'' \<longleftrightarrow> cell_at b m = ''_''"
proof -
  from cell_at_in_board [OF assms(1,3,4)] assms(2)
  have "cell_at b m = ''_'' \<or> cell_at b m = ''X'' \<or> cell_at b m = ''O''"
    unfolding valid_cells_def by blast
  then show ?thesis by auto
qed

lemma possible_moves_empty_cells:
  assumes "board_3x3 b" and "valid_cells b" and "iteration_order order"
  shows "set (get_possible_moves order b) = {m. 1 \<le> m \<and> m \<le> 9 \<and> cell_at b m = ''_''}"
  unfolding get_possible_moves_set(1) [OF assms(1,3)]
  using empty_move_iff [OF assms(1,2)] by blast

lemma possible_moves_Nil_iff:
  assumes "board_3x3 b" and "valid_cells b" and "iteration_order order"
  shows "get_possible_moves order b = [] \<longleftrightarrow> check_draw b"
proof
  assume "get_possible_moves order b = []"
  then have none: "\<And>m. 1 \<le> m \<Longrightarrow> m \<le> 9 \<Longrightarrow> cell_at b m \<noteq> ''_''"
    using possible_moves_empty_cells [OF assms] by auto
  show "check_draw b"
    unfolding check_draw_def
  proof (intro ballI)
    fix row cell
    assume "row \<in> set b" "cell \<in> set row"
    from empty_cell_move [OF assms(1) this] none show "cell \<noteq> ''_''" by blast
  qed
next
  assume full: "check_draw b"
  have "cell_at b m \<noteq> ''_''" if "1 \<le> m" "m \<le> 9" for m
    using cell_at_in_board [OF assms(1) that] full unfolding check_draw_def by blast
  then have "set (get_possible_moves order b) = {}"
    unfolding possible_moves_empty_cells [OF assms] by blast
  then show "get_possible_moves order b = []" by simp
qed

text \<open>
  Claim C4 (legality). On a board of three rows of three cells drawn from
  \<open>"_"\<close>, \<open>"X"\<close>, \<open>"O"\<close> that has at least one empty cell, and for every iteration
  order of the set of possible moves, \<open>make_smart_move\<close> returns normally an integer
  between 1 and 9 whose cell on the input board is empty. This holds for every pair of
  symbols, hence for the symbols \<open>"X"\<close> and \<open>"O"\<close> in either role.
\<close>

theorem make_smart_move_legal:
  assumes "board_3x3 b" and "valid_cells b" and "iteration_order order"
    and "\<not> check_draw b"
  shows "\<exists>m. make_smart_move order b p q = Inr m \<and> 1 \<le> m \<and> m \<le> 9 \<and> cell_at b m = ''_''"
proof -
  from assms(4) have "get_possible_moves order b \<noteq> []"
    using possible_moves_Nil_iff [OF assms(1,2,3)] by simp
  with make_smart_move_result [OF assms(1,3), of p q] obtain m where
    m: "m \<in> set (get_possible_moves order b)" "make_smart_move order b p q = Inr m"
    by blast
  from m(1) have "1 \<le> m \<and> m \<le> 9 \<and> cell_at b m = ''_''"
    unfolding possible_moves_empty_cells [OF assms(1,2,3)] by simp
  with m(2) show ?thesis by blast
qed

theorem make_smart_move_legal_witness:
  "board_3x3 [[''O'', ''O'', ''X''], [''X'', ''_'', ''X''], [''_'', ''O'', ''_'']] \<and>
   valid_cells [[''O'', ''O'', ''X''], [''X'', ''_'', ''X''], [''_'', ''O'', ''_'']] \<and>
   iteration_order ascending \<and>
   \<not> check_draw [[''O'', ''O'', ''X''], [''X'', ''_'', ''X''], [''_'', ''O'', ''_'']] \<and>
   (\<exists>m. make_smart_move ascending
          [[''O'', ''O'', ''X''], [''X'', ''_'', ''X''], [''_'', ''O'', ''_'']] ''X'' ''O'' = Inr m \<and>
        1 \<le> m \<and> m \<le> 9 \<and>
        cell_at [[''O'', ''O'', ''X''], [''X'', ''_'', ''X''], [''_'', ''O'', ''_'']] m = ''_'')"
proof -
  let ?b = "[[''O'', ''O'', ''X''], [''X'', ''_'', ''X''], [''_'', ''O'', ''_'']]"
  have 1: "board_3x3 ?b" by (simp add: board_3x3_def)
  have 2: "valid_cells ?b" by (simp add: valid_cells_def)
  have 3: "\<not> check_draw ?b" by (simp add: check_draw_def)
  from make_smart_move_legal [OF 1 2 iteration_order_ascending 3, of "''X''" "''O''"]
  show ?thesis using 1 2 3 iteration_order_ascending by simp
qed

text \<open>
  Claim C6 (exhaustion sentinel). On a fully occupied board of three rows of three
  cells drawn from \<open>"_"\<close>, \<open>"X"\<close>, \<open>"O"\<close> (no cell is \<open>"_"\<close>), for every iteration
  order and every pair of symbols, \<open>make_smart_move\<close> returns \<open>-1\<close>, which is not a
  move number between 1 and 9.
\<close>

theorem make_smart_move_exhausted:
  assumes "board_3x3 b" and "valid_cells b" and "iteration_order order"
    and "check_draw b"
  shows "\<exists>r. make_smart_move order b p q = Inr r \<and> r = - 1 \<and> r \<notin> {1..9}"
proof -
  from assms(4) have "get_possible_moves order b = []"
    using possible_moves_Nil_iff [OF assms(1,2,3)] by simp
  with make_smart_move_result [OF assms(1,3), of p q]
  have "make_smart_move order b p q = Inr (- 1)" by auto
  then show ?thesis by simp
qed

theorem make_smart_move_exhausted_witness:
  "board_3x3 [[''X'', ''O'', ''X''], [''O'', ''X'', ''O''], [''O'', ''X'', ''O'']] \<and>
   valid_cells [[''X'', ''O'', ''X''], [''O'', ''X'', ''O''], [''O'', ''X'', ''O'']] \<and>
   iteration_order ascending \<and>
   check_draw [[''X'', ''O'', ''X''], [''O'', ''X'', ''O''], [''O'', ''X'', ''O'']] \<and>
   make_smart_move ascending
     [[''X'', ''O'', ''X''], [''O'', ''X'', ''O''], [''O'', ''X'', ''O'']] ''X'' ''O'' = Inr (- 1)"
proof -
  let ?b = "[[''X'', ''O'', ''X''], [''O'', ''X'', ''O''], [''O'', ''X'', ''O'']]"
  have 1: "board_3x3 ?b" by (simp add: board_3x3_def)
  have 2: "valid_cells ?b" by (simp add: valid_cells_def)
  have 3: "check_draw ?b" by (simp add: check_draw_def)
  from make_smart_move_exhausted [OF 1 2 iteration_order_ascending 3, of "''X''" "''O''"]
  show ?thesis using 1 2 3 iteration_order_ascending by simp
qed

text \<open>
  Claim C10 (score-map completeness). On a board of three rows of three cells drawn
  from \<open>"_"\<close>, \<open>"X"\<close>, \<open>"O"\<close>, for every iteration order and every symbol,
  \<open>calc_optimized_move\<close> returns a dictionary whose key set is exactly the set of
  moves 1..9 whose cell is empty: every empty move has a score and no occupied move is
  a key.
\<close>

theorem calc_optimized_move_complete:
  assumes "board_3x3 b" and "valid_cells b" and "iteration_order order"
  shows "\<exists>d. calc_optimized_move order b s = Inr d \<and> distinct (map fst d) \<and>
           fst ` set d = {m. 1 \<le> m \<and> m \<le> 9 \<and> cell_at b m = ''_''}"
  using calc_optimized_move_keys [OF assms(1,3), of s]
  unfolding possible_moves_empty_cells [OF assms] .

theorem calc_optimized_move_complete_witness:
  "board_3x3 [[''O'', ''O'', ''X''], [''X'', ''_'', ''X''], [''_'', ''O'', ''_'']] \<and>
   valid_cells [[''O'', ''O'', ''X''], [''X'', ''_'', ''X''], [''_'', ''O'', ''_'']] \<and>
   iteration_order ascending \<and>
   (\<exists>d. calc_optimized_move ascending
          [[''O'', ''O'', ''X''], [''X'', ''_'', ''X''], [''_'', ''O'', ''_'']] ''X'' = Inr d \<and>
        distinct (map fst d) \<and>
        fst ` set d =
          {m. 1 \<le> m \<and> m \<le> 9 \<and>
              cell_at [[''O'', ''O'', ''X''], [''X'', ''_'', ''X''], [''_'', ''O'', ''_'']] m = ''_''})"
proof -
  let ?b = "[[''O'', ''O'', ''X''], [''X'', ''_'', ''X''], [''_'', ''O'', ''_'']]"
  have 1: "board_3x3 ?b" by (simp add: board_3x3_def)
  have 2: "valid_cells ?b" by (simp add: valid_cells_def)
  from calc_optimized_move_complete [OF 1 2 iteration_order_ascending, of "''X''"]
  show ?thesis using 1 2 iteration_order_ascending by simp
qed

subsection \<open>Symbols are not validated; the merge is a pointwise maximum\<close>

text \<open>
  Claim C7 (InvalidSymbol rejection) does not hold: \<open>make_smart_move\<close> has no check of
  its symbols. Called with the same symbol for both players it scores the board and
  returns a move.
\<close>

theorem make_smart_move_equal_symbols_not_rejected:
  "make_smart_move ascending
     [[''X'', ''O'', ''X''], [''O'', ''X'', ''O''], [''O'', ''_'', ''_'']] ''X'' ''X'' = Inr 9"
  by code_simp

text \<open>
  The possible moves are the cells that hold neither \<open>"X"\<close> nor \<open>"O"\<close>, whatever the
  symbols of the call are: with a self symbol \<open>"Z"\<close> a cell that holds \<open>"Z"\<close> is a
  possible move, and it is returned here.
\<close>

lemma make_smart_move_foreign_symbol_cell:
  "make_smart_move ascending
     [[''Z'', ''O'', ''X''], [''O'', ''X'', ''O''], [''O'', ''X'', ''X'']] ''Z'' ''X'' = Inr 1 \<and>
   cell_at [[''Z'', ''O'', ''X''], [''O'', ''X'', ''O''], [''O'', ''X'', ''X'']] 1 = ''Z''"
  by code_simp

text \<open>
  Claim C7 as amended: \<open>make_smart_move\<close> validates nothing. On every board of three
  rows of three cells, when the two symbols are equal or one of them is neither
  \<open>"X"\<close> nor \<open>"O"\<close>, the call is not rejected, it returns normally: \<open>-1\<close> when every
  cell holds \<open>"X"\<close> or \<open>"O"\<close>, and otherwise a move between 1 and 9 whose cell holds
  neither \<open>"X"\<close> nor \<open>"O"\<close>. That cell is empty when the cells of the board are
  drawn from \<open>"_"\<close>, \<open>"X"\<close>, \<open>"O"\<close>.
\<close>

theorem make_smart_move_no_symbol_check:
  assumes "board_3x3 b" and "iteration_order order"
    and "p = q \<or> p \<notin> {''X'', ''O''} \<or> q \<notin> {''X'', ''O''}"
  shows "\<exists>r. make_smart_move order b p q = Inr r \<and>
           (if \<forall>m. 1 \<le> m \<and> m \<le> 9 \<longrightarrow> cell_at b m = ''X'' \<or> cell_at b m = ''O''
            then r = - 1
            else 1 \<le> r \<and> r \<le> 9 \<and> cell_at b r \<noteq> ''X'' \<and> cell_at b r \<noteq> ''O'' \<and>
                 (valid_cells b \<longrightarrow> cell_at b r = ''_''))"
proof -
  note set_pm = get_possible_moves_set(1) [OF assms(1,2)]
  have nil: "get_possible_moves order b = [] \<longleftrightarrow>
      (\<forall>m. 1 \<le> m \<and> m \<le> 9 \<longrightarrow> cell_at b m = ''X'' \<or> cell_at b m = ''O'')"
  proof -
    have "get_possible_moves order b = [] \<longleftrightarrow> set (get_possible_moves order b) = {}"
      by simp
    also have "\<dots> \<longleftrightarrow>
        (\<forall>m. 1 \<le> m \<and> m \<le> 9 \<longrightarrow> cell_at b m = ''X'' \<or> cell_at b m = ''O'')"
      unfolding set_pm by blast
    finally show ?thesis .
  qed
  from make_smart_move_result [OF assms(1,2), of p q]
  show ?thesis
  proof
    assume "get_possible_moves order b = [] \<and> make_smart_move order b p q = Inr (- 1)"
    then show ?thesis using nil by simp
  next
    assume "\<exists>m \<in> set (get_possible_moves order b). make_smart_move order b p q = Inr m"
    then obtain m where m: "m \<in> set (get_possible_moves order b)"
      "make_smart_move order b p q = Inr m" by blast
    from m(1) have ne: "get_possible_moves order b \<noteq> []" by auto
    from m(1) have cell: "1 \<le> m" "m \<le> 9" "cell_at b m \<noteq> ''X''" "cell_at b m \<noteq> ''O''"
      unfolding set_pm by simp_all
    have "cell_at b m = ''_''" if "valid_cells b"
      using empty_move_iff [OF assms(1) that cell(1,2)] cell(3,4) by simp
    with m(2) cell ne nil show ?thesis by simp
  qed
qed

theorem make_smart_move_no_symbol_check_witness:
  "board_3x3 [[''X'', ''O'', ''X''], [''O'', ''X'', ''O''], [''O'', ''_'', ''_'']] \<and>
   iteration_order ascending \<and>
   (\<exists>r. make_smart_move ascending
          [[''X'', ''O'', ''X''], [''O'', ''X'', ''O''], [''O'', ''_'', ''_'']] ''Z'' ''Z'' = Inr r \<and>
        1 \<le> r \<and> r \<le> 9 \<and>
        cell_at [[''X'', ''O'', ''X''], [''O'', ''X'', ''O''], [''O'', ''_'', ''_'']] r = ''_'')"
proof -
  let ?b = "[[''X'', ''O'', ''X''], [''O'', ''X'', ''O''], [''O'', ''_'', ''_'']]"
  have 1: "board_3x3 ?b" by (simp add: board_3x3_def)
  have 2: "valid_cells ?b" by (simp add: valid_cells_def)
  have cell: "cell_at ?b 9 = ''_''" by (simp add: cell_at_grid)
  have 3: "\<not> (\<forall>m. 1 \<le> m \<and> m \<le> 9 \<longrightarrow> cell_at ?b m = ''X'' \<or> cell_at ?b m = ''O'')"
  proof
    assume "\<forall>m. 1 \<le> m \<and> m \<le> 9 \<longrightarrow> cell_at ?b m = ''X'' \<or> cell_at ?b m = ''O''"
    then have "cell_at ?b 9 = ''X'' \<or> cell_at ?b 9 = ''O''" by simp
    with cell show False by simp
  qed
  from make_smart_move_no_symbol_check [OF 1 iteration_order_ascending, of "''Z''" "''Z''"]
  obtain r where r: "make_smart_move ascending ?b ''Z'' ''Z'' = Inr r"
    "if \<forall>m. 1 \<le> m \<and> m \<le> 9 \<longrightarrow> cell_at ?b m = ''X'' \<or> cell_at ?b m = ''O''
     then r = - 1
     else 1 \<le> r \<and> r \<le> 9 \<and> cell_at ?b r \<noteq> ''X'' \<and> cell_at ?b r \<noteq> ''O'' \<and>
          (valid_cells ?b \<longrightarrow> cell_at ?b r = ''_'')"
    by auto
  from r(2) 3 2 have "1 \<le> r \<and> r \<le> 9 \<and> cell_at ?b r = ''_''"
    by (simp only: if_False)
  with r(1) 1 iteration_order_ascending show ?thesis by blast
qed

text \<open>
  Claim C5 (the merge of two priority maps). For priority maps \<open>A\<close>, \<open>B\<close>, \<open>C\<close>
  (dictionaries with non-negative scores), \<open>get_sorted_moves A B\<close> is a priority map
  whose keys are the keys of \<open>A\<close> and of \<open>B\<close>, whose value at every key is the
  maximum of \<open>A.get(move, 0)\<close> and \<open>B.get(move, 0)\<close>; as a mapping it does not depend
  on the order of its arguments, and merging three maps gives the same mapping however
  the merges are nested and ordered.
\<close>

theorem get_sorted_moves_merge_max:
  assumes "priority_map A" and "priority_map B" and "priority_map C"
  shows "priority_map (get_sorted_moves A B) \<and>
         fst ` set (get_sorted_moves A B) = fst ` set A \<union> fst ` set B \<and>
         (\<forall>move \<in> fst ` set A \<union> fst ` set B.
            map_of (get_sorted_moves A B) move =
              Some (max (dict_get A move 0) (dict_get B move 0))) \<and>
         map_of (get_sorted_moves A B) = map_of (get_sorted_moves B A) \<and>
         map_of (get_sorted_moves (get_sorted_moves A B) C) =
           map_of (get_sorted_moves A (get_sorted_moves B C)) \<and>
         map_of (get_sorted_moves (get_sorted_moves A B) C) =
           map_of (get_sorted_moves (get_sorted_moves A C) B) \<and>
         map_of (get_sorted_moves (get_sorted_moves A B) C) =
           map_of (get_sorted_moves (get_sorted_moves B C) A)"
proof -
  from assms have dA: "distinct (map fst A)" and dB: "distinct (map fst B)"
    and dC: "distinct (map fst C)"
    by (simp_all add: priority_map_def)
  note dm = distinct_get_sorted_moves
  have nonneg: "0 \<le> dict_get d k 0" if "priority_map d" for d :: "(int, int) dict" and k
  proof (cases "map_of d k")
    case None
    then show ?thesis by (simp add: dict_get_def)
  next
    case (Some v)
    then have "(k, v) \<in> set d" by (rule map_of_SomeD)
    with that have "0 \<le> v" unfolding priority_map_def by auto
    with Some show ?thesis by (simp add: dict_get_def)
  qed
  have val: "map_of (get_sorted_moves A B) k = Some (max (dict_get A k 0) (dict_get B k 0))"
    if "k \<in> fst ` set A \<union> fst ` set B" for k
    using that nonneg [OF assms(1), of k] nonneg [OF assms(2), of k]
    by (simp add: map_of_get_sorted_moves [OF dA dB] max_def)
  have pm: "priority_map (get_sorted_moves A B)"
    unfolding priority_map_def
  proof (intro conjI ballI)
    show "distinct (map fst (get_sorted_moves A B))" by (rule dm)
  next
    fix item
    assume item: "item \<in> set (get_sorted_moves A B)"
    then have "map_of (get_sorted_moves A B) (fst item) = Some (snd item)"
      by (simp add: map_of_eq_Some_iff [OF dm])
    moreover have "fst item \<in> fst ` set A \<union> fst ` set B"
      using item keys_get_sorted_moves [of A B] by auto
    ultimately have "snd item = max (dict_get A (fst item) 0) (dict_get B (fst item) 0)"
      using val by simp
    with nonneg [OF assms(1), of "fst item"] show "0 \<le> snd item" by simp
  qed
  have comm: "map_of (get_sorted_moves A B) = map_of (get_sorted_moves B A)"
    by (rule ext) (simp add: map_of_get_sorted_moves dA dB max.commute Un_commute)
  have three: "map_of (get_sorted_moves (get_sorted_moves X Y) Z) k =
      (if k \<in> fst ` set X \<union> fst ` set Y \<union> fst ` set Z
       then Some (max 0 (max (dict_get X k 0) (max (dict_get Y k 0) (dict_get Z k 0))))
       else None)"
    if "distinct (map fst X)" "distinct (map fst Y)" "distinct (map fst Z)"
    for X Y Z :: "(int, int) dict" and k
    using that
    by (simp add: map_of_get_sorted_moves dm keys_get_sorted_moves dict_get_get_sorted_moves
        max_def)
  have three': "map_of (get_sorted_moves X (get_sorted_moves Y Z)) k =
      (if k \<in> fst ` set X \<union> fst ` set Y \<union> fst ` set Z
       then Some (max 0 (max (dict_get X k 0) (max (dict_get Y k 0) (dict_get Z k 0))))
       else None)"
    if "distinct (map fst X)" "distinct (map fst Y)" "distinct (map fst Z)"
    for X Y Z :: "(int, int) dict" and k
    using that
    by (simp add: map_of_get_sorted_moves dm keys_get_sorted_moves dict_get_get_sorted_moves
        max_def Un_assoc)
  have assoc: "map_of (get_sorted_moves (get_sorted_moves A B) C) =
                 map_of (get_sorted_moves A (get_sorted_moves B C))"
    by (rule ext) (simp add: three [OF dA dB dC] three' [OF dA dB dC])
  have swap: "map_of (get_sorted_moves (get_sorted_moves A B) C) =
                 map_of (get_sorted_moves (get_sorted_moves A C) B)"
    by (rule ext) (auto simp: three [OF dA dB dC] three [OF dA dC dB] max_def)
  have rot: "map_of (get_sorted_moves (get_sorted_moves A B) C) =
                 map_of (get_sorted_moves (get_sorted_moves B C) A)"
    by (rule ext) (auto simp: three [OF dA dB dC] three [OF dB dC dA] max_def)
  from pm keys_get_sorted_moves [of A B] val comm assoc swap rot show ?thesis
    by blast
qed

theorem get_sorted_moves_merge_max_witness:
  "priority_map [(5, 2), (7, 1)] \<and> priority_map [(7, 2), (9, 0)] \<and> priority_map [(1, 1)] \<and>
   get_sorted_moves [(5, 2), (7, 1)] [(7, 2), (9, 0)] = [(5, 2), (7, 2), (9, 0)] \<and>
   get_sorted_moves [(7, 2), (9, 0)] [(5, 2), (7, 1)] = [(7, 2), (5, 2), (9, 0)] \<and>
   map_of (get_sorted_moves [(5, 2), (7, 1)] [(7, 2), (9, 0)]) =
     map_of (get_sorted_moves [(7, 2), (9, 0)] [(5, 2), (7, 1)]) \<and>
   map_of (get_sorted_moves [(5, 2), (7, 1)] [(7, 2), (9, 0)]) 7 = Some 2"
proof -
  have 1: "priority_map [(5, 2), (7, 1)]" by (simp add: priority_map_def)
  have 2: "priority_map [(7, 2), (9, 0)]" by (simp add: priority_map_def)
  have 3: "priority_map [(1, 1)]" by (simp add: priority_map_def)
  have 4: "get_sorted_moves [(5, 2), (7, 1)] [(7, 2), (9, 0)] = [(5, 2), (7, 2), (9, 0)]"
    by code_simp
  have 5: "get_sorted_moves [(7, 2), (9, 0)] [(5, 2), (7, 1)] = [(7, 2), (5, 2), (9, 0)]"
    by code_simp
  have 6: "(7::int) \<in> fst ` set [(5, 2), (7, 1::int)] \<union> fst ` set [(7, 2), (9, 0::int)]"
    by simp
  note inst = get_sorted_moves_merge_max [OF 1 2 3]
  from inst have val:
    "\<forall>move \<in> fst ` set [(5, 2), (7, 1::int)] \<union> fst ` set [(7, 2), (9, 0::int)].
       map_of (get_sorted_moves [(5, 2), (7, 1)] [(7, 2), (9, 0)]) move =
         Some (max (dict_get [(5, 2), (7, 1)] move 0) (dict_get [(7, 2), (9, 0)] move 0))"
    by (elim conjE)
  from inst have comm:
    "map_of (get_sorted_moves [(5, 2), (7, 1)] [(7, 2), (9, 0)]) =
       map_of (get_sorted_moves [(7, 2), (9, 0)] [(5, 2), (7, 1)])"
    by (elim conjE)
  from bspec [OF val 6]
  have "map_of (get_sorted_moves [(5, 2), (7, 1)] [(7, 2), (9, 0)]) 7 = Some 2"
    by (simp add: dict_get_def)
  with comm 1 2 3 4 5 show ?thesis by (intro conjI)
qed

subsection \<open>Scores within one family\<close>

text \<open>
  Claim C2 (intra-family line scoring) does not hold for the diagonals: the centre move
  5 lies on both diagonals. On the board below, 5 is a possible move on the diagonal
  \<open>[1, 5, 9]\<close>, which holds two \<open>"X"\<close>; the diagonal priority map gives 5 the score 0,
  the count of the other diagonal.
\<close>

theorem diagonal_score_of_centre_counterexample:
  "[1, 5, 9] \<in> set (family_lines Diagonals) \<and>
   5 \<in> set (get_possible_moves ascending
               [[''X'', ''O'', ''O''], [''_'', ''_'', ''_''], [''_'', ''_'', ''X'']]) \<and>
   line_count [[''X'', ''O'', ''O''], [''_'', ''_'', ''_''], [''_'', ''_'', ''X'']] ''X'' [1, 5, 9] = 2 \<and>
   family_priority ascending
     [[''X'', ''O'', ''O''], [''_'', ''_'', ''_''], [''_'', ''_'', ''X'']] ''X'' Diagonals =
       Inr [(5, 0), (7, 0)] \<and>
   map_of [(5, 0), (7, 0)] (5::int) = Some (0::int)"
proof -
  let ?b = "[[''X'', ''O'', ''O''], [''_'', ''_'', ''_''], [''_'', ''_'', ''X'']]"
  have 1: "get_possible_moves ascending ?b = [4, 5, 6, 7, 8]" by code_simp
  have 2: "line_count ?b ''X'' [1, 5, 9] = 2" by code_simp
  have 3: "family_priority ascending ?b ''X'' Diagonals = Inr [(5, 0), (7, 0)]" by code_simp
  from 1 2 3 show ?thesis by simp
qed

text \<open>
  Claim C2 as amended. On a board of three rows of three cells, for every symbol and
  every family, every possible move that lies on a line of the family, the centre move
  5 of the diagonals excepted, lies on no other line of that family and is assigned, by
  the priority map of the family, the number of cells of its line that hold the symbol.
  (Nothing is said of the score the diagonal map gives the centre move.)
\<close>

theorem family_priority_line_count:
  assumes "board_3x3 b"
    and "line \<in> set (family_lines fam)" and "m \<in> set line"
    and "m \<in> set (get_possible_moves order b)"
    and "fam = Diagonals \<longrightarrow> m \<noteq> 5"
  shows "(\<forall>other \<in> set (family_lines fam). m \<in> set other \<longrightarrow> other = line) \<and>
         (\<exists>d. family_priority order b s fam = Inr d \<and> distinct (map fst d) \<and>
              map_of d m = Some (line_count b s line))"
proof (intro conjI ballI impI)
  fix other
  assume other: "other \<in> set (family_lines fam)" "m \<in> set other"
  from assms(2) obtain i where i: "i < length (family_lines fam)" "line = family_lines fam ! i"
    by (auto simp: in_set_conv_nth)
  from other(1) obtain j where j: "j < length (family_lines fam)" "other = family_lines fam ! j"
    by (auto simp: in_set_conv_nth)
  have "j = i"
    using family_lines_disjoint [OF i(1) j(1) _ _ assms(5)] assms(3) other(2) i(2) j(2)
    by blast
  with i(2) j(2) show "other = line" by simp
next
  from family_priority_value [OF assms, of s] obtain d where
    d: "family_priority order b s fam = Inr d" "map_of d m = Some (line_count b s line)"
    by blast
  from family_priority_keys [OF assms(1), of order s fam] d(1)
  have "distinct (map fst d)" by auto
  with d show "\<exists>d. family_priority order b s fam = Inr d \<and> distinct (map fst d) \<and>
                 map_of d m = Some (line_count b s line)"
    by blast
qed

theorem family_priority_line_count_witness:
  "board_3x3 [[''X'', ''O'', ''O''], [''_'', ''_'', ''_''], [''_'', ''_'', ''X'']] \<and>
   [3, 5, 7] \<in> set (family_lines Diagonals) \<and>
   7 \<in> set (get_possible_moves ascending
               [[''X'', ''O'', ''O''], [''_'', ''_'', ''_''], [''_'', ''_'', ''X'']]) \<and>
   line_count [[''X'', ''O'', ''O''], [''_'', ''_'', ''_''], [''_'', ''_'', ''X'']] ''O'' [3, 5, 7] = 1 \<and>
   (\<exists>d. family_priority ascending
          [[''X'', ''O'', ''O''], [''_'', ''_'', ''_''], [''_'', ''_'', ''X'']] ''O'' Diagonals = Inr d \<and>
        map_of d 7 = Some 1)"
proof -
  let ?b = "[[''X'', ''O'', ''O''], [''_'', ''_'', ''_''], [''_'', ''_'', ''X'']]"
  have 1: "board_3x3 ?b" by (simp add: board_3x3_def)
  have 2: "[3, 5, 7] \<in> set (family_lines Diagonals)" by simp
  have 3: "(7::int) \<in> set [3, 5, 7]" by simp
  have pm: "get_possible_moves ascending ?b = [4, 5, 6, 7, 8]" by code_simp
  have 4: "7 \<in> set (get_possible_moves ascending ?b)" unfolding pm by simp
  have 5: "Diagonals = Diagonals \<longrightarrow> (7::int) \<noteq> 5" by simp
  have 6: "line_count ?b ''O'' [3, 5, 7] = 1" by code_simp
  from family_priority_line_count [OF 1 2 3 4 5, of "''O''"] 6
  show ?thesis using 1 2 4 by auto
qed

subsection \<open>The centre move and the diagonal \<open>[1, 5, 9]\<close>\<close>

lemma score_lines_diagonal_centre:
  assumes "5 \<in> set pm"
  shows "\<exists>d. score_lines [[1, 5, 9], [3, 5, 7]] [(0, c0), (1, c1)] pm [] = Inr d \<and>
             distinct (map fst d) \<and> map_of d 5 = Some c1"
proof -
  from assms have pm: "pm \<noteq> []" by auto
  let ?d = "assign_line [3, 5, 7] c1 pm (assign_line [1, 5, 9] c0 pm [])"
  have "score_lines [[1, 5, 9], [3, 5, 7]] [(0, c0), (1, c1)] pm [] = Inr ?d"
    using pm by (simp add: getitem_def)
  moreover have "distinct (map fst ?d)"
    by (intro distinct_assign_line) simp
  moreover have "map_of ?d 5 = Some c1"
    using assms by (simp add: map_of_assign_line)
  ultimately show ?thesis by blast
qed

text \<open>
  The score the diagonal map gives the centre: whenever 5 is a possible move it is the
  count of the diagonal \<open>[3, 5, 7]\<close>, whatever the count of \<open>[1, 5, 9]\<close> and whatever the
  iteration order; the second pass of the loop overwrites what the first assigned.
\<close>

lemma diagonal_priority_of_centre:
  assumes "board_3x3 b" and "5 \<in> set (get_possible_moves order b)"
  shows "\<exists>d. family_priority order b s Diagonals = Inr d \<and>
             map_of d 5 = Some (line_count b s [3, 5, 7])"
proof -
  from assms(1) obtain a1 a2 a3 a4 a5 a6 a7 a8 a9 where
    b: "b = [[a1, a2, a3], [a4, a5, a6], [a7, a8, a9]]"
    by (rule board_3x3_explicit)
  from score_lines_diagonal_centre [OF assms(2), of "line_count b s [1, 5, 9]"
      "line_count b s [3, 5, 7]"]
  obtain d where d:
    "score_lines [[1, 5, 9], [3, 5, 7]]
       [(0, line_count b s [1, 5, 9]), (1, line_count b s [3, 5, 7])]
       (get_possible_moves order b) [] = Inr d"
    "distinct (map fst d)" "map_of d 5 = Some (line_count b s [3, 5, 7])"
    by blast
  have "family_priority order b s Diagonals = Inr (sort_dictonary d)"
    using d(1) unfolding b
    by (simp add: get_diagonal_counts_grid get_optimized_diagonal_moves_def)
  with d(2,3) show ?thesis by (simp add: map_of_sort_dictonary)
qed

text \<open>
  Claim C1 (completion preference) fails on the code. On the board below the symbol
  \<open>"O"\<close> holds two cells of the diagonal \<open>[1, 5, 9]\<close> whose third cell, 5, is empty, and
  at most one cell of every other line (the counts are listed for the three rows, the
  three columns and the two diagonals); \<open>make_smart_move\<close> for \<open>"O"\<close> returns 7, not the
  completing move 5.
\<close>

theorem completion_missed_on_main_diagonal:
  "map (line_count [[''O'', ''X'', ''X''], [''X'', ''_'', ''_''], [''_'', ''_'', ''O'']] ''O'')
       (family_lines Rows @ family_lines Columns @ family_lines Diagonals) =
     [1, 0, 1, 1, 0, 1, 2, 0] \<and>
   cell_at [[''O'', ''X'', ''X''], [''X'', ''_'', ''_''], [''_'', ''_'', ''O'']] 5 = ''_'' \<and>
   make_smart_move ascending
     [[''O'', ''X'', ''X''], [''X'', ''_'', ''_''], [''_'', ''_'', ''O'']] ''O'' ''X'' = Inr 7"
  by code_simp

text \<open>
  Claim C3 (blocking) fails on the code, by the same overwritten centre score. On the
  board below the opponent \<open>"X"\<close> holds two cells of the diagonal \<open>[1, 5, 9]\<close> whose
  third cell, 5, is empty, and \<open>"O"\<close> holds at most one cell of every line;
  \<open>make_smart_move\<close> for \<open>"O"\<close> returns 7, which lies on no line where \<open>"X"\<close> holds two
  cells, and leaves 5 open.
\<close>

theorem block_missed_on_main_diagonal:
  "map (line_count [[''X'', ''_'', ''_''], [''O'', ''_'', ''_''], [''_'', ''_'', ''X'']] ''X'')
       (family_lines Rows @ family_lines Columns @ family_lines Diagonals) =
     [1, 0, 1, 1, 0, 1, 2, 0] \<and>
   map (line_count [[''X'', ''_'', ''_''], [''O'', ''_'', ''_''], [''_'', ''_'', ''X'']] ''O'')
       (family_lines Rows @ family_lines Columns @ family_lines Diagonals) =
     [0, 1, 0, 1, 0, 0, 0, 0] \<and>
   cell_at [[''X'', ''_'', ''_''], [''O'', ''_'', ''_''], [''_'', ''_'', ''X'']] 5 = ''_'' \<and>
   make_smart_move ascending
     [[''X'', ''_'', ''_''], [''O'', ''_'', ''_''], [''_'', ''_'', ''X'']] ''O'' ''X'' = Inr 7"
  by code_simp

subsection \<open>The rejection-sampling loop\<close>

lemma random_loop_Some_in:
  assumes "random_loop draws n pm = Some m"
  shows "m \<in> set pm"
proof (rule random_loop.raw_induct [where P = "\<lambda>draws n pm m. m \<in> set pm", OF _ assms])
  fix f :: "(nat \<Rightarrow> int) \<Rightarrow> nat \<Rightarrow> int list \<Rightarrow> int option" and draws n pm m
  assume IH: "\<And>draws n pm y. f draws n pm = Some y \<Longrightarrow> y \<in> set pm"
    and eq: "(if draws n \<in> set pm then Some (draws n) else f draws (Suc n) pm) = Some m"
  show "m \<in> set pm"
  proof (cases "draws n \<in> set pm")
    case True
    with eq show ?thesis by simp
  next
    case False
    with eq have "f draws (Suc n) pm = Some m" by simp
    then show ?thesis by (rule IH)
  qed
qed

lemma random_loop_Nil: "random_loop draws n [] = None"
proof (cases "random_loop draws n []")
  case None
  then show ?thesis .
next
  case (Some m)
  then have "m \<in> set []" by (rule random_loop_Some_in)
  then show ?thesis by simp
qed

lemma random_loop_prefix:
  "loop_on (map draws [n..<n + len]) pm = Some m \<Longrightarrow> random_loop draws n pm = Some m"
proof (induction len arbitrary: n)
  case 0
  then show ?case by simp
next
  case (Suc len)
  have upt: "[n..<n + Suc len] = n # [Suc n..<Suc n + len]"
    by (simp add: upt_rec)
  show ?case
  proof (cases "draws n \<in> set pm")
    case True
    with Suc.prems show ?thesis
      unfolding upt by (subst random_loop.simps) simp
  next
    case False
    with Suc.prems have "loop_on (map draws [Suc n..<Suc n + len]) pm = Some m"
      unfolding upt by simp
    then have "random_loop draws (Suc n) pm = Some m" by (rule Suc.IH)
    with False show ?thesis by (subst random_loop.simps) simp
  qed
qed

lemma random_loop_has_prefix:
  assumes "random_loop draws n pm = Some m"
  shows "\<exists>len. loop_on (map draws [n..<n + len]) pm = Some m"
proof (rule random_loop.raw_induct
    [where P = "\<lambda>draws n pm m. \<exists>len. loop_on (map draws [n..<n + len]) pm = Some m",
      OF _ assms])
  fix f :: "(nat \<Rightarrow> int) \<Rightarrow> nat \<Rightarrow> int list \<Rightarrow> int option" and draws n pm m
  assume IH: "\<And>draws n pm y. f draws n pm = Some y \<Longrightarrow>
                \<exists>len. loop_on (map draws [n..<n + len]) pm = Some y"
    and eq: "(if draws n \<in> set pm then Some (draws n) else f draws (Suc n) pm) = Some m"
  show "\<exists>len. loop_on (map draws [n..<n + len]) pm = Some m"
  proof (cases "draws n \<in> set pm")
    case True
    with eq have "loop_on (map draws [n..<n + 1]) pm = Some m" by simp
    then show ?thesis by blast
  next
    case False
    with eq have "f draws (Suc n) pm = Some m" by simp
    from IH [OF this] obtain len where
      len: "loop_on (map draws [Suc n..<Suc n + len]) pm = Some m" by blast
    have upt: "[n..<n + Suc len] = n # [Suc n..<Suc n + len]"
      by (simp add: upt_rec)
    from len False have "loop_on (map draws [n..<n + Suc len]) pm = Some m"
      unfolding upt by (simp only: list.map loop_on.simps if_False)
    then show ?thesis by blast
  qed
qed

lemma random_loop_hit:
  "draws (n + i) \<in> set pm \<Longrightarrow> \<exists>m. random_loop draws n pm = Some m"
proof (induction i arbitrary: n)
  case 0
  then show ?case by (subst random_loop.simps) simp
next
  case (Suc i)
  show ?case
  proof (cases "draws n \<in> set pm")
    case True
    then show ?thesis by (subst random_loop.simps) simp
  next
    case False
    from Suc.prems have "draws (Suc n + i) \<in> set pm" by simp
    from Suc.IH [OF this] obtain m where "random_loop draws (Suc n) pm = Some m" by blast
    with False show ?thesis by (subst random_loop.simps) simp
  qed
qed

subsection \<open>Counting the equally likely draw sequences\<close>

lemma length_filter_draw_sequences_Suc:
  "length (filter P (draw_sequences (Suc n))) =
     (\<Sum>d\<leftarrow>[1..9]. length (filter (\<lambda>ds. P (d # ds)) (draw_sequences n)))"
proof -
  have "length (filter P (concat xss)) = (\<Sum>xs\<leftarrow>xss. length (filter P xs))"
    for xss :: "int list list list"
    by (induction xss) simp_all
  then show ?thesis
    by (simp add: filter_map comp_def del: upto.simps)
qed

lemma length_draw_sequences: "length (draw_sequences n) = 9 ^ n"
proof (induction n)
  case 0
  then show ?case by simp
next
  case (Suc n)
  have "length (draw_sequences (Suc n)) = length (filter (\<lambda>_. True) (draw_sequences (Suc n)))"
    by simp
  also have "\<dots> = (\<Sum>d\<leftarrow>[1..9::int]. length (draw_sequences n))"
    unfolding length_filter_draw_sequences_Suc by simp
  also have "\<dots> = 9 * 9 ^ n"
    by (simp add: Suc.IH sum_list_triv)
  finally show ?case by simp
qed

lemma set_draw_sequences:
  "set (draw_sequences n) = {ds. length ds = n \<and> set ds \<subseteq> {1..9}}"
proof (induction n)
  case 0
  then show ?case by auto
next
  case (Suc n)
  show ?case
  proof (intro set_eqI iffI)
    fix ds
    assume "ds \<in> set (draw_sequences (Suc n))"
    then obtain d ds' where "ds = d # ds'" "d \<in> {1..9}" "ds' \<in> set (draw_sequences n)"
      by auto
    with Suc.IH show "ds \<in> {ds. length ds = Suc n \<and> set ds \<subseteq> {1..9}}" by auto
  next
    fix ds :: "int list"
    assume "ds \<in> {ds. length ds = Suc n \<and> set ds \<subseteq> {1..9}}"
    then obtain d ds' where ds: "ds = d # ds'" "length ds' = n" "d \<in> {1..9}" "set ds' \<subseteq> {1..9}"
      by (cases ds) auto
    with Suc.IH have "ds' \<in> set (draw_sequences n)" by simp
    with ds(1,3) show "ds \<in> set (draw_sequences (Suc n))" by auto
  qed
qed

lemma distinct_draw_sequences: "distinct (draw_sequences n)"
proof (induction n)
  case 0
  then show ?case by simp
next
  case (Suc n)
  have "distinct (concat (map (\<lambda>d. map ((#) d) (draw_sequences n)) ds))"
    if "distinct ds" for ds :: "int list"
    using that Suc.IH
    by (induction ds) (auto simp: distinct_map)
  then show ?case by simp
qed

lemma sum_over_draws:
  assumes "distinct pm" and "set pm \<subseteq> {1..9}"
  shows "(\<Sum>d\<leftarrow>[1..9]. if d \<in> set pm then f d else (c::nat)) =
           sum f (set pm) + (9 - length pm) * c"
proof -
  have "(\<Sum>d\<leftarrow>[1..9]. if d \<in> set pm then f d else c) =
          (\<Sum>d \<in> {1..9}. if d \<in> set pm then f d else c)"
    by (subst sum_list_distinct_conv_sum_set) (simp_all del: upto.simps)
  also have "\<dots> = (\<Sum>d \<in> set pm. if d \<in> set pm then f d else c) +
                   (\<Sum>d \<in> {1..9} - set pm. if d \<in> set pm then f d else c)"
    using assms(2) by (subst sum.subset_diff [of "set pm"]) (simp_all add: add.commute)
  also have "(\<Sum>d \<in> set pm. if d \<in> set pm then f d else c) = sum f (set pm)"
    by (rule sum.cong) simp_all
  also have "(\<Sum>d \<in> {1..9} - set pm. if d \<in> set pm then f d else c) =
               card ({1..9} - set pm) * c"
    by simp
  also have "card ({1..9::int} - set pm) = 9 - length pm"
    using assms by (simp add: card_Diff_subset distinct_card)
  finally show ?thesis .
qed

lemma returned_0: "returned pm 0 m = 0"
  by (simp add: returned_def)

lemma returned_Suc:
  assumes "distinct pm" and "set pm \<subseteq> {1..9}" and "m \<in> set pm"
  shows "returned pm (Suc n) m = 9 ^ n + (9 - length pm) * returned pm n m"
proof -
  have "returned pm (Suc n) m =
          (\<Sum>d\<leftarrow>[1..9]. if d \<in> set pm then (if d = m then 9 ^ n else 0) else returned pm n m)"
    unfolding returned_def length_filter_draw_sequences_Suc
    by (intro arg_cong [where f = sum_list] map_cong refl)
       (simp add: length_draw_sequences eq_commute)
  also have "\<dots> = (\<Sum>d \<in> set pm. if d = m then 9 ^ n else 0) +
                   (9 - length pm) * returned pm n m"
    by (rule sum_over_draws [OF assms(1,2)])
  also have "(\<Sum>d \<in> set pm. if d = m then 9 ^ n else 0) = (9 ^ n :: nat)"
    using assms(3) by simp
  finally show ?thesis .
qed

lemma still_looping_0: "still_looping pm 0 = 1"
  by (simp add: still_looping_def)

lemma still_looping_Suc:
  assumes "distinct pm" and "set pm \<subseteq> {1..9}"
  shows "still_looping pm (Suc n) = (9 - length pm) * still_looping pm n"
proof -
  have "still_looping pm (Suc n) =
          (\<Sum>d\<leftarrow>[1..9]. if d \<in> set pm then 0 else still_looping pm n)"
    unfolding still_looping_def length_filter_draw_sequences_Suc
    by (intro arg_cong [where f = sum_list] map_cong refl) simp
  also have "\<dots> = (\<Sum>d \<in> set pm. 0) + (9 - length pm) * still_looping pm n"
    by (rule sum_over_draws [OF assms])
  finally show ?thesis by simp
qed

lemma still_looping_power:
  assumes "distinct pm" and "set pm \<subseteq> {1..9}"
  shows "still_looping pm n = (9 - length pm) ^ n"
  by (induction n) (simp_all add: still_looping_0 still_looping_Suc [OF assms])

lemma returned_uniform:
  assumes "distinct pm" and "set pm \<subseteq> {1..9}" and "m \<in> set pm" and "m' \<in> set pm"
  shows "returned pm n m = returned pm n m'"
  by (induction n)
     (simp_all add: returned_0 returned_Suc [OF assms(1,2,3)] returned_Suc [OF assms(1,2,4)])

lemma returned_total:
  assumes "distinct pm" and "set pm \<subseteq> {1..9}" and "m \<in> set pm"
  shows "length pm * returned pm n m + still_looping pm n = 9 ^ n"
proof -
  have k: "length pm \<le> 9"
  proof -
    have "length pm = card (set pm)" using assms(1) by (simp add: distinct_card)
    also have "\<dots> \<le> card {1..9::int}" using assms(2) by (intro card_mono) simp_all
    finally show ?thesis by simp
  qed
  show ?thesis
  proof (induction n)
    case 0
    then show ?case by (simp add: returned_0 still_looping_0)
  next
    case (Suc n)
    have "length pm * returned pm (Suc n) m + still_looping pm (Suc n) =
            length pm * 9 ^ n +
            (9 - length pm) * (length pm * returned pm n m + still_looping pm n)"
      by (simp add: returned_Suc [OF assms] still_looping_Suc [OF assms(1,2)] algebra_simps)
    also have "\<dots> = length pm * 9 ^ n + (9 - length pm) * 9 ^ n"
      by (simp only: Suc.IH)
    also have "\<dots> = (length pm + (9 - length pm)) * 9 ^ n"
      by (simp only: add_mult_distrib)
    also have "\<dots> = 9 ^ Suc n" using k by simp
    finally show ?case .
  qed
qed

subsection \<open>The random move\<close>

lemma length_possible_moves_le:
  assumes "distinct pm" and "set pm \<subseteq> {1..9::int}"
  shows "length pm \<le> 9"
proof -
  have "length pm = card (set pm)" using assms(1) by (simp add: distinct_card)
  also have "\<dots> \<le> card {1..9::int}" using assms(2) by (intro card_mono) simp_all
  finally show ?thesis by simp
qed

lemma still_looping_tendsto_0:
  assumes "distinct pm" and "set pm \<subseteq> {1..9}" and "pm \<noteq> []"
  shows "(\<lambda>n. real (still_looping pm n) / 9 ^ n) \<longlonglongrightarrow> 0"
proof -
  let ?q = "real (9 - length pm) / 9"
  have "0 < length pm" using assms(3) by simp
  then have q: "0 \<le> ?q" "?q < 1" by simp_all
  have "(\<lambda>n. real (still_looping pm n) / 9 ^ n) = (\<lambda>n. ?q ^ n)"
    by (simp add: still_looping_power [OF assms(1,2)] power_divide)
  moreover have "(\<lambda>n. ?q ^ n) \<longlonglongrightarrow> 0"
    using q by (rule LIMSEQ_realpow_zero)
  ultimately show ?thesis by simp
qed

lemma returned_tendsto_uniform:
  assumes "distinct pm" and "set pm \<subseteq> {1..9}" and "m \<in> set pm"
  shows "(\<lambda>n. real (returned pm n m) / 9 ^ n) \<longlonglongrightarrow> 1 / real (length pm)"
proof -
  from assms(3) have ne: "pm \<noteq> []" by auto
  then have k: "0 < real (length pm)" by simp
  have eq: "real (returned pm n m) / 9 ^ n =
              (1 - real (still_looping pm n) / 9 ^ n) / real (length pm)" for n
  proof -
    have "real (length pm * returned pm n m + still_looping pm n) = real (9 ^ n)"
      by (simp only: returned_total [OF assms])
    then have "real (length pm) * real (returned pm n m) =
                 9 ^ n - real (still_looping pm n)"
      by simp
    then have "real (returned pm n m) = (9 ^ n - real (still_looping pm n)) / real (length pm)"
      using k by (simp add: field_simps)
    then show ?thesis by (simp add: field_simps)
  qed
  have "(\<lambda>n. (1 - real (still_looping pm n) / 9 ^ n) / real (length pm))
          \<longlonglongrightarrow> (1 - 0) / real (length pm)"
    by (intro tendsto_intros still_looping_tendsto_0 [OF assms(1,2) ne]) (use k in simp)
  then show ?thesis by (simp add: eq)
qed

text \<open>
  Claim C9 (random move). On a board of three rows of three cells drawn from \<open>"_"\<close>,
  \<open>"X"\<close>, \<open>"O"\<close>: when no cell is empty, \<open>make_random_move\<close> returns on no sequence of
  draws (the loop spins forever). When a cell is empty, it returns only moves of empty
  cells, it returns as soon as a draw is the move of an empty cell, and it returns
  \<open>m\<close> exactly when the loop run on some finite prefix of the draws returns \<open>m\<close>;
  among the \<open>9 ^ n\<close> equally likely sequences of \<open>n\<close> draws, the share on which it has
  not yet returned tends to 0 (it terminates with probability 1), every two empty cells
  are returned on the same number of sequences (the result is uniform), and the share
  on which an empty cell is returned tends to one over the number of empty cells.
\<close>

theorem make_random_move_rejection_sampling:
  assumes "board_3x3 b" and "valid_cells b" and "iteration_order order"
  shows "(check_draw b \<longrightarrow> (\<forall>draws. make_random_move order draws b = None)) \<and>
         (\<not> check_draw b \<longrightarrow>
            (\<forall>draws m. make_random_move order draws b = Some m \<longrightarrow>
               1 \<le> m \<and> m \<le> 9 \<and> cell_at b m = ''_'') \<and>
            (\<forall>draws i. 1 \<le> draws i \<and> draws i \<le> 9 \<and> cell_at b (draws i) = ''_'' \<longrightarrow>
               (\<exists>m. make_random_move order draws b = Some m)) \<and>
            (\<forall>draws m. make_random_move order draws b = Some m \<longleftrightarrow>
               (\<exists>n. loop_on (map draws [0..<n]) (get_possible_moves order b) = Some m)) \<and>
            (\<lambda>n. real (still_looping (get_possible_moves order b) n) / 9 ^ n)
               \<longlonglongrightarrow> 0 \<and>
            (\<forall>m m' n. 1 \<le> m \<and> m \<le> 9 \<and> cell_at b m = ''_'' \<and>
                      1 \<le> m' \<and> m' \<le> 9 \<and> cell_at b m' = ''_'' \<longrightarrow>
               returned (get_possible_moves order b) n m =
               returned (get_possible_moves order b) n m') \<and>
            (\<forall>m. 1 \<le> m \<and> m \<le> 9 \<and> cell_at b m = ''_'' \<longrightarrow>
               (\<lambda>n. real (returned (get_possible_moves order b) n m) / 9 ^ n)
                 \<longlonglongrightarrow> 1 / real (card {m. 1 \<le> m \<and> m \<le> 9 \<and> cell_at b m = ''_''})))"
proof (intro conjI impI allI)
  let ?pm = "get_possible_moves order b"
  note set_pm = possible_moves_empty_cells [OF assms]
  note nil_pm = possible_moves_Nil_iff [OF assms]
  have dist: "distinct ?pm" by (rule get_possible_moves_set(2) [OF assms(1,3)])
  have sub: "set ?pm \<subseteq> {1..9}" unfolding set_pm by auto
  {
    fix draws :: "nat \<Rightarrow> int"
    assume "check_draw b"
    then have "?pm = []" by (simp add: nil_pm)
    then show "make_random_move order draws b = None"
      by (simp add: make_random_move_def random_loop_Nil)
  next
    fix draws :: "nat \<Rightarrow> int" and m
    assume "make_random_move order draws b = Some m"
    then have "m \<in> set ?pm"
      unfolding make_random_move_def by (rule random_loop_Some_in)
    then show "1 \<le> m" "m \<le> 9" "cell_at b m = ''_''"
      unfolding set_pm by simp_all
  next
    fix draws :: "nat \<Rightarrow> int" and i
    assume "1 \<le> draws i \<and> draws i \<le> 9 \<and> cell_at b (draws i) = ''_''"
    then have "draws (0 + i) \<in> set ?pm" unfolding set_pm by simp
    then show "\<exists>m. make_random_move order draws b = Some m"
      unfolding make_random_move_def by (rule random_loop_hit)
  next
    fix draws :: "nat \<Rightarrow> int" and m
    show "make_random_move order draws b = Some m \<longleftrightarrow>
            (\<exists>n. loop_on (map draws [0..<n]) ?pm = Some m)"
      unfolding make_random_move_def
      using random_loop_has_prefix [of draws 0 ?pm m] random_loop_prefix [of draws 0 _ ?pm m]
      by auto
  next
    assume "\<not> check_draw b"
    then have "?pm \<noteq> []" by (simp add: nil_pm)
    with dist sub show "(\<lambda>n. real (still_looping ?pm n) / 9 ^ n) \<longlonglongrightarrow> 0"
      by (rule still_looping_tendsto_0)
  next
    fix m m' n
    assume "1 \<le> m \<and> m \<le> 9 \<and> cell_at b m = ''_'' \<and> 1 \<le> m' \<and> m' \<le> 9 \<and> cell_at b m' = ''_''"
    then have "m \<in> set ?pm" "m' \<in> set ?pm" unfolding set_pm by simp_all
    with dist sub show "returned ?pm n m = returned ?pm n m'"
      by (rule returned_uniform)
  next
    fix m
    assume "1 \<le> m \<and> m \<le> 9 \<and> cell_at b m = ''_''"
    then have "m \<in> set ?pm" unfolding set_pm by simp
    with dist sub have
      "(\<lambda>n. real (returned ?pm n m) / 9 ^ n) \<longlonglongrightarrow> 1 / real (length ?pm)"
      by (rule returned_tendsto_uniform)
    moreover have "length ?pm = card {m. 1 \<le> m \<and> m \<le> 9 \<and> cell_at b m = ''_''}"
      using dist distinct_card [of ?pm] by (simp add: set_pm)
    ultimately show "(\<lambda>n. real (returned ?pm n m) / 9 ^ n)
        \<longlonglongrightarrow> 1 / real (card {m. 1 \<le> m \<and> m \<le> 9 \<and> cell_at b m = ''_''})"
      by simp
  }
qed

theorem make_random_move_rejection_sampling_witness:
  "make_random_move ascending (\<lambda>i. 5)
     [[''X'', ''O'', ''X''], [''O'', ''X'', ''O''], [''O'', ''X'', ''O'']] = None \<and>
   (\<exists>m. make_random_move ascending (\<lambda>i. if i < 2 then 1 else 9)
          [[''X'', ''O'', ''X''], [''O'', ''X'', ''O''], [''O'', ''_'', ''_'']] = Some m) \<and>
   returned (get_possible_moves ascending
               [[''X'', ''O'', ''X''], [''O'', ''X'', ''O''], [''O'', ''_'', ''_'']]) 3 8 =
   returned (get_possible_moves ascending
               [[''X'', ''O'', ''X''], [''O'', ''X'', ''O''], [''O'', ''_'', ''_'']]) 3 9"
proof -
  let ?full = "[[''X'', ''O'', ''X''], [''O'', ''X'', ''O''], [''O'', ''X'', ''O'']]"
  let ?b = "[[''X'', ''O'', ''X''], [''O'', ''X'', ''O''], [''O'', ''_'', ''_'']]"
  have full: "board_3x3 ?full" "valid_cells ?full" "check_draw ?full"
    by (simp_all add: board_3x3_def valid_cells_def check_draw_def)
  have b: "board_3x3 ?b" "valid_cells ?b" "\<not> check_draw ?b"
    by (simp_all add: board_3x3_def valid_cells_def check_draw_def)
  have cells: "cell_at ?b 8 = ''_''" "cell_at ?b 9 = ''_''"
    by (simp_all add: cell_at_grid)
  from make_random_move_rejection_sampling [OF full(1,2) iteration_order_ascending] full(3)
  have 1: "make_random_move ascending (\<lambda>i. 5) ?full = None"
    by blast
  note inst = make_random_move_rejection_sampling [OF b(1,2) iteration_order_ascending]
  from inst b(3) have hit:
    "\<forall>draws i. 1 \<le> draws i \<and> draws i \<le> 9 \<and> cell_at ?b (draws i) = ''_'' \<longrightarrow>
       (\<exists>m. make_random_move ascending draws ?b = Some m)"
    by blast
  have 2: "\<exists>m. make_random_move ascending (\<lambda>i. if i < 2 then 1 else 9) ?b = Some m"
    using hit [rule_format, of "\<lambda>i. if i < 2 then 1 else 9" 2] cells by simp
  from inst b(3) have uni:
    "\<forall>m m' n. 1 \<le> m \<and> m \<le> 9 \<and> cell_at ?b m = ''_'' \<and>
               1 \<le> m' \<and> m' \<le> 9 \<and> cell_at ?b m' = ''_'' \<longrightarrow>
       returned (get_possible_moves ascending ?b) n m =
       returned (get_possible_moves ascending ?b) n m'"
    by blast
  have 3: "returned (get_possible_moves ascending ?b) 3 8 =
           returned (get_possible_moves ascending ?b) 3 9"
    using uni [rule_format, of 8 9 3] cells by simp
  from 1 2 3 show ?thesis by (intro conjI)
qed

subsection \<open>The store: what a call leaves unchanged\<close>

lemma reads_only_return [intro!]: "reads_only (return_st x)"
  by (simp add: reads_only_def return_st_def)

lemma reads_only_pure [intro!]: "reads_only (pure_st r)"
  by (simp add: reads_only_def pure_st_def)

lemma reads_only_len [intro!]: "reads_only (len_st v)"
  by (simp add: reads_only_def len_st_def)

lemma reads_only_getitem [intro!]: "reads_only (getitem_st v i)"
  by (simp add: reads_only_def getitem_st_def)

lemma reads_only_bind [intro!]:
  assumes "reads_only m" and "\<And>x. reads_only (f x)"
  shows "reads_only (bind_st m f)"
  unfolding reads_only_def
proof
  fix h
  from assms(1) have m: "snd (m h) = h" by (simp add: reads_only_def)
  show "snd (bind_st m f h) = h"
  proof (cases "fst (m h)")
    case (Inl e)
    with m show ?thesis
      by (cases "m h") (simp add: bind_st_def)
  next
    case (Inr x)
    from assms(2) [of x] have "snd (f x h) = h" by (simp add: reads_only_def)
    with Inr m show ?thesis
      by (cases "m h") (simp add: bind_st_def)
  qed
qed

lemma reads_only_for [intro!]:
  assumes "\<And>x s. reads_only (body x s)"
  shows "reads_only (for_st xs body s)"
  by (induction xs arbitrary: s) (auto intro: assms)

lemma reads_only_case_prod [intro!]:
  assumes "\<And>a b. reads_only (f a b)"
  shows "reads_only (case p of (a, b) \<Rightarrow> f a b)"
  by (cases p) (simp add: assms)

lemma reads_only_get_player_fields_st: "reads_only (get_player_fields_st v s)"
  unfolding get_player_fields_st_def by (intro reads_only_bind reads_only_for reads_only_case_prod reads_only_len reads_only_getitem reads_only_return)

lemma reads_only_get_possible_moves_st: "reads_only (get_possible_moves_st order v)"
  unfolding get_possible_moves_st_def
  by (intro reads_only_bind reads_only_get_player_fields_st reads_only_return)

lemma reads_only_get_diagonal_counts_st: "reads_only (get_diagonal_counts_st v s)"
  unfolding get_diagonal_counts_st_def by (intro reads_only_bind reads_only_for reads_only_case_prod reads_only_len reads_only_getitem reads_only_return)

lemma reads_only_get_horizontal_counts_st: "reads_only (get_horizontal_counts_st v s)"
  unfolding get_horizontal_counts_st_def by (intro reads_only_bind reads_only_for reads_only_case_prod reads_only_len reads_only_getitem reads_only_return)

lemma extends_refl [simp]: "extends h h"
  by (simp add: extends_def)

lemma extends_trans: "extends h h' \<Longrightarrow> extends h' h'' \<Longrightarrow> extends h h''"
  by (auto simp: extends_def)

lemma preserves_reads_only: "reads_only m \<Longrightarrow> preserves m"
  by (simp add: reads_only_def preserves_def)

lemma preserves_new_list: "preserves (new_list_st items)"
  by (simp add: preserves_def new_list_st_def extends_def)

lemma preserves_bind:
  assumes "preserves m" and "\<And>x. preserves (f x)"
  shows "preserves (bind_st m f)"
  unfolding preserves_def
proof
  fix h
  from assms(1) have m: "extends h (snd (m h))" by (simp add: preserves_def)
  show "extends h (snd (bind_st m f h))"
  proof (cases "fst (m h)")
    case (Inl e)
    with m show ?thesis
      by (cases "m h") (simp add: bind_st_def)
  next
    case (Inr x)
    from assms(2) [of x] have "extends (snd (m h)) (snd (f x (snd (m h))))"
      by (simp add: preserves_def)
    with m have "extends h (snd (f x (snd (m h))))" by (rule extends_trans)
    with Inr show ?thesis
      by (cases "m h") (simp add: bind_st_def)
  qed
qed

lemma preserves_map:
  assumes "\<And>x. preserves (f x)"
  shows "preserves (map_st f xs)"
proof (induction xs)
  case Nil
  show ?case by (simp add: preserves_reads_only reads_only_return)
next
  case (Cons x xs)
  show ?case
    unfolding map_st.simps
    by (intro preserves_bind assms Cons.IH preserves_reads_only reads_only_return)
qed

lemma preserves_transposed_st: "preserves (transposed_st v)"
  unfolding transposed_st_def
  by (intro preserves_bind preserves_map preserves_new_list preserves_reads_only
      reads_only_bind reads_only_len reads_only_getitem)

lemma preserves_get_vertical_counts_st: "preserves (get_vertical_counts_st v s)"
  unfolding get_vertical_counts_st_def
  by (intro preserves_bind preserves_transposed_st preserves_reads_only
      reads_only_get_horizontal_counts_st)

lemma preserves_calc_optimized_move_st: "preserves (calc_optimized_move_st order v s)"
  unfolding calc_optimized_move_st_def
  by (intro preserves_bind preserves_get_vertical_counts_st preserves_reads_only
      reads_only_get_horizontal_counts_st reads_only_get_possible_moves_st
      reads_only_get_diagonal_counts_st reads_only_pure)

lemma preserves_make_smart_move_st: "preserves (make_smart_move_st order v p q)"
  unfolding make_smart_move_st_def Let_def
  by (intro preserves_bind preserves_calc_optimized_move_st preserves_reads_only
      reads_only_return)

lemma board_at_extends:
  assumes "extends h h'" and "board_at h v b"
  shows "board_at h' v b"
proof -
  from assms(2) obtain g rs where
    g: "v = Ref g" "g < top h" "objs h g = map Ref rs" "length rs = length b"
       "\<forall>i < length b. rs ! i < top h \<and> objs h (rs ! i) = map Str (b ! i)"
    unfolding board_at_def by blast
  from assms(1) have le: "top h \<le> top h'" and same: "\<And>a. a < top h \<Longrightarrow> objs h' a = objs h a"
    by (auto simp: extends_def)
  have "v = Ref g \<and> g < top h' \<and> objs h' g = map Ref rs \<and> length rs = length b \<and>
        (\<forall>i < length b. rs ! i < top h' \<and> objs h' (rs ! i) = map Str (b ! i))"
    using g le same by (auto simp: less_le_trans)
  then show ?thesis unfolding board_at_def by blast
qed

subsection \<open>The store: reading the occupied fields\<close>

lemma bind_st_Inr: "m h = (Inr x, h') \<Longrightarrow> bind_st m f h = f x h'"
  by (simp add: bind_st_def)

lemma bind_st_apply:
  "bind_st m f h = (case m h of (Inl e, h') \<Rightarrow> (Inl e, h') | (Inr x, h') \<Rightarrow> f x h')"
  by (simp add: bind_st_def)

lemma bind_st_step:
  "m h = (Inr x, h') \<Longrightarrow> f x h' = r \<Longrightarrow> bind_st m f h = r"
  by (simp add: bind_st_def)

lemma bind_st_Inl: "m h = (Inl e, h') \<Longrightarrow> bind_st m f h = (Inl e, h')"
  by (simp add: bind_st_def)

lemma getitem_st_Ref: "getitem_st (Ref a) i h = (getitem (objs h a) i, h)"
  by (simp add: getitem_st_def)

lemma len_st_Ref: "len_st (Ref a) h = (Inr (length (objs h a)), h)"
  by (simp add: len_st_def)

lemma return_st_apply: "return_st x h = (Inr x, h)"
  by (simp add: return_st_def)

lemma for_st_fields_inner:
  assumes "i < length (objs h g)" and "objs h g ! i = Ref r" and "objs h r = map Str row"
    and "\<forall>c \<in> set cs. c < length row"
  shows "for_st cs
           (\<lambda>col_index elements.
              bind_st (getitem_st (Ref g) i) (\<lambda>row.
              bind_st (getitem_st row col_index) (\<lambda>cell.
                return_st (if cell = Str s then elements @ [f col_index] else elements))))
           elements h =
         (Inr (elements @ map f (filter (\<lambda>c. row ! c = s) cs)), h)"
  using assms(4)
proof (induction cs arbitrary: elements)
  case Nil
  then show ?case by (simp add: return_st_apply)
next
  case (Cons c cs)
  from Cons.prems have c: "c < length row" and cs: "\<forall>c \<in> set cs. c < length row" by simp_all
  have step: "bind_st (getitem_st (Ref g) i) (\<lambda>row.
              bind_st (getitem_st row c) (\<lambda>cell.
                return_st (if cell = Str s then elements @ [f c] else elements))) h =
              (Inr (if row ! c = s then elements @ [f c] else elements), h)"
    using assms(1,2,3) c
    by (simp add: bind_st_def getitem_st_def getitem_def return_st_def)
  have "for_st (c # cs)
           (\<lambda>col_index elements.
              bind_st (getitem_st (Ref g) i) (\<lambda>row.
              bind_st (getitem_st row col_index) (\<lambda>cell.
                return_st (if cell = Str s then elements @ [f col_index] else elements))))
           elements h =
        for_st cs
           (\<lambda>col_index elements.
              bind_st (getitem_st (Ref g) i) (\<lambda>row.
              bind_st (getitem_st row col_index) (\<lambda>cell.
                return_st (if cell = Str s then elements @ [f col_index] else elements))))
           (if row ! c = s then elements @ [f c] else elements) h"
    unfolding for_st.simps by (rule bind_st_Inr) (rule step)
  then show ?case
    by (simp add: Cons.IH [OF cs])
qed

lemma for_st_count_inner:
  assumes "i < length (objs h g)" and "objs h g ! i = Ref r" and "objs h r = map Str row"
    and "\<forall>c \<in> set cs. c < length row"
  shows "for_st cs
           (\<lambda>col_index num_of_appearances.
              bind_st (getitem_st (Ref g) i) (\<lambda>row.
              bind_st (getitem_st row col_index) (\<lambda>cell.
                return_st (if cell = Str s then num_of_appearances + 1
                           else num_of_appearances))))
           num h =
         (Inr (num + int (length (filter (\<lambda>c. row ! c = s) cs))), h)"
  using assms(4)
proof (induction cs arbitrary: num)
  case Nil
  then show ?case by (simp add: return_st_apply)
next
  case (Cons c cs)
  from Cons.prems have c: "c < length row" and cs: "\<forall>c \<in> set cs. c < length row" by simp_all
  have step: "bind_st (getitem_st (Ref g) i) (\<lambda>row.
              bind_st (getitem_st row c) (\<lambda>cell.
                return_st (if cell = Str s then num + 1 else num))) h =
              (Inr (if row ! c = s then num + 1 else num), h)"
    using assms(1,2,3) c
    by (simp add: bind_st_def getitem_st_def getitem_def return_st_def)
  have "for_st (c # cs)
           (\<lambda>col_index num_of_appearances.
              bind_st (getitem_st (Ref g) i) (\<lambda>row.
              bind_st (getitem_st row col_index) (\<lambda>cell.
                return_st (if cell = Str s then num_of_appearances + 1
                           else num_of_appearances))))
           num h =
        for_st cs
           (\<lambda>col_index num_of_appearances.
              bind_st (getitem_st (Ref g) i) (\<lambda>row.
              bind_st (getitem_st row col_index) (\<lambda>cell.
                return_st (if cell = Str s then num_of_appearances + 1
                           else num_of_appearances))))
           (if row ! c = s then num + 1 else num) h"
    unfolding for_st.simps by (rule bind_st_Inr) (rule step)
  then show ?case
    by (simp add: Cons.IH [OF cs])
qed

lemma for_st_fields_outer:
  assumes "objs h g = map Ref rs" and "length rs = length b"
    and "\<forall>i < length b. objs h (rs ! i) = map Str (b ! i)"
  shows "k \<le> length b \<Longrightarrow>
         for_st [k..<length b]
           (\<lambda>row_index (elements, prev_rows).
              bind_st (getitem_st (Ref g) row_index) (\<lambda>row.
              bind_st (len_st row) (\<lambda>m.
              bind_st
                (for_st [0..<m]
                   (\<lambda>col_index elements.
                      bind_st (getitem_st (Ref g) row_index) (\<lambda>row.
                      bind_st (getitem_st row col_index) (\<lambda>cell.
                        return_st
                          (if cell = Str s
                           then elements @ [int (row_index + prev_rows + col_index + 1)]
                           else elements))))
                   elements)
                (\<lambda>elements. return_st (elements, prev_rows + 2)))))
           (elements, p) h =
         (Inr (elements @ get_player_fields_loop k p (drop k b) s, p + 2 * (length b - k)), h)"
proof (induction "length b - k" arbitrary: k elements p)
  case 0
  then have "k = length b" by simp
  then show ?case by (simp add: return_st_apply)
next
  case (Suc d)
  then have k: "k < length b" by simp
  then have upt: "[k..<length b] = k # [Suc k..<length b]" by (rule upt_conv_Cons)
  have drop: "drop k b = b ! k # drop (Suc k) b"
    using k by (simp add: Cons_nth_drop_Suc)
  have i: "k < length (objs h g)" "objs h g ! k = Ref (rs ! k)"
    "objs h (rs ! k) = map Str (b ! k)"
    using assms k by simp_all
  have inner: "for_st [0..<length (b ! k)]
                 (\<lambda>col_index elements.
                    bind_st (getitem_st (Ref g) k) (\<lambda>row.
                    bind_st (getitem_st row col_index) (\<lambda>cell.
                      return_st
                        (if cell = Str s
                         then elements @ [int (k + p + col_index + 1)]
                         else elements))))
                 elements h =
               (Inr (elements @ map (\<lambda>col_index. int (k + p + col_index + 1))
                       (filter (\<lambda>c. b ! k ! c = s) [0..<length (b ! k)])), h)"
    by (rule for_st_fields_inner [OF i]) simp
  have body: "bind_st (getitem_st (Ref g) k) (\<lambda>row.
              bind_st (len_st row) (\<lambda>m.
              bind_st
                (for_st [0..<m]
                   (\<lambda>col_index elements.
                      bind_st (getitem_st (Ref g) k) (\<lambda>row.
                      bind_st (getitem_st row col_index) (\<lambda>cell.
                        return_st
                          (if cell = Str s
                           then elements @ [int (k + p + col_index + 1)]
                           else elements))))
                   elements)
                (\<lambda>elements. return_st (elements, p + 2)))) h =
             (Inr (elements @ map (\<lambda>col_index. int (k + p + col_index + 1))
                       (filter (\<lambda>c. b ! k ! c = s) [0..<length (b ! k)]), p + 2), h)"
    by (simp only: bind_st_apply getitem_st_Ref len_st_Ref return_st_apply getitem_def i inner
        length_map if_True prod.case sum.case)
  from Suc.hyps(2) have d: "d = length b - Suc k" by simp
  from k have le: "Suc k \<le> length b" by simp
  have eq: "p + 2 + 2 * (length b - Suc k) = p + 2 * (length b - k)"
    using k by simp
  show ?case
    unfolding upt for_st.simps prod.case
    by (rule bind_st_step, rule body)
       (simp only: Suc.hyps(1) [OF d le] drop get_player_fields_loop.simps eq append_assoc)
qed

lemma board_atE:
  assumes "board_at h v b"
  obtains g rs where "v = Ref g" and "g < top h" and "objs h g = map Ref rs"
    and "length rs = length b"
    and "\<forall>i < length b. rs ! i < top h \<and> objs h (rs ! i) = map Str (b ! i)"
  using assms unfolding board_at_def by blast

lemma get_player_fields_st_refines:
  assumes "board_at h v b"
  shows "get_player_fields_st v s h = (Inr (get_player_fields b s), h)"
proof -
  from assms obtain g rs where
    g: "v = Ref g" "objs h g = map Ref rs" "length rs = length b"
       "\<forall>i < length b. objs h (rs ! i) = map Str (b ! i)"
    by (auto elim: board_atE)
  have len: "len_st (Ref g) h = (Inr (length b), h)"
    by (simp add: len_st_Ref g)
  note outer = for_st_fields_outer [OF g(2,3,4), of 0 s "[]" 0]
  show ?thesis
    unfolding get_player_fields_st_def g(1)
    by (simp only: bind_st_apply len prod.case sum.case outer le0 return_st_apply
        get_player_fields_def drop_0 append_Nil)
qed

lemma get_possible_moves_st_refines:
  assumes "board_at h v b"
  shows "get_possible_moves_st order v h = (Inr (get_possible_moves order b), h)"
  by (simp only: get_possible_moves_st_def get_possible_moves_def Let_def return_st_apply
      bind_st_apply get_player_fields_st_refines [OF assms] prod.case sum.case)

subsection \<open>The store: reading the line counts\<close>

lemma dict_set_fresh: "k \<notin> fst ` set d \<Longrightarrow> dict_set d k v = d @ [(k, v)]"
  by (induction d k v rule: dict_set.induct) auto

lemma for_st_counts_outer:
  assumes "objs h g = map Ref rs" and "length rs = length b"
    and "\<forall>i < length b. objs h (rs ! i) = map Str (b ! i)"
  shows "k \<le> length b \<Longrightarrow> \<forall>key \<in> fst ` set d. key < k \<Longrightarrow>
         for_st [k..<length b]
           (\<lambda>row_index count_each_row.
              bind_st (getitem_st (Ref g) row_index) (\<lambda>row.
              bind_st (len_st row) (\<lambda>m.
              bind_st
                (for_st [0..<m]
                   (\<lambda>col_index num_of_appearances.
                      bind_st (getitem_st (Ref g) row_index) (\<lambda>row.
                      bind_st (getitem_st row col_index) (\<lambda>cell.
                        return_st
                          (if cell = Str s then num_of_appearances + 1
                           else num_of_appearances))))
                   0)
                (\<lambda>num_of_appearances.
                   return_st (dict_set count_each_row row_index num_of_appearances)))))
           d h =
         (Inr (d @ map (\<lambda>row_index.
                          (row_index,
                           int (length (filter (\<lambda>col_index. b ! row_index ! col_index = s)
                                         [0..<length (b ! row_index)]))))
                     [k..<length b]), h)"
proof (induction "length b - k" arbitrary: k d)
  case 0
  then have "k = length b" by simp
  then show ?case by (simp add: return_st_apply)
next
  case (Suc n)
  then have k: "k < length b" by simp
  then have upt: "[k..<length b] = k # [Suc k..<length b]" by (rule upt_conv_Cons)
  have i: "k < length (objs h g)" "objs h g ! k = Ref (rs ! k)"
    "objs h (rs ! k) = map Str (b ! k)"
    using assms k by simp_all
  let ?cnt = "int (length (filter (\<lambda>c. b ! k ! c = s) [0..<length (b ! k)]))"
  have inner: "for_st [0..<length (b ! k)]
                 (\<lambda>col_index num_of_appearances.
                    bind_st (getitem_st (Ref g) k) (\<lambda>row.
                    bind_st (getitem_st row col_index) (\<lambda>cell.
                      return_st
                        (if cell = Str s then num_of_appearances + 1
                         else num_of_appearances))))
                 0 h =
               (Inr (0 + ?cnt), h)"
    by (rule for_st_count_inner [OF i]) simp
  have fresh: "k \<notin> fst ` set d" using Suc.prems(2) by auto
  have body: "bind_st (getitem_st (Ref g) k) (\<lambda>row.
              bind_st (len_st row) (\<lambda>m.
              bind_st
                (for_st [0..<m]
                   (\<lambda>col_index num_of_appearances.
                      bind_st (getitem_st (Ref g) k) (\<lambda>row.
                      bind_st (getitem_st row col_index) (\<lambda>cell.
                        return_st
                          (if cell = Str s then num_of_appearances + 1
                           else num_of_appearances))))
                   0)
                (\<lambda>num_of_appearances.
                   return_st (dict_set d k num_of_appearances)))) h =
             (Inr (d @ [(k, ?cnt)]), h)"
    by (simp only: bind_st_apply getitem_st_Ref len_st_Ref return_st_apply getitem_def i inner
        length_map if_True prod.case sum.case dict_set_fresh [OF fresh] add_0)
  from Suc.hyps(2) have n: "n = length b - Suc k" by simp
  from k have le: "Suc k \<le> length b" by simp
  have keys: "\<forall>key \<in> fst ` set (d @ [(k, ?cnt)]). key < Suc k"
    using Suc.prems(2) by (auto simp: less_Suc_eq)
  show ?case
    unfolding upt for_st.simps
    by (rule bind_st_step, rule body)
       (simp only: Suc.hyps(1) [OF n le keys] list.map append_assoc append_Cons append_Nil)
qed

lemma get_horizontal_counts_st_refines:
  assumes "board_at h v b"
  shows "get_horizontal_counts_st v s h = (Inr (get_horizontal_counts b s), h)"
proof -
  from assms obtain g rs where
    g: "v = Ref g" "objs h g = map Ref rs" "length rs = length b"
       "\<forall>i < length b. objs h (rs ! i) = map Str (b ! i)"
    by (auto elim: board_atE)
  have len: "len_st (Ref g) h = (Inr (length b), h)"
    by (simp add: len_st_Ref g)
  have keys: "\<forall>key \<in> fst ` set ([] :: (nat, int) dict). key < 0" by simp
  note outer = for_st_counts_outer [OF g(2,3,4) le0 keys, of s]
  show ?thesis
    unfolding get_horizontal_counts_st_def g(1)
    by (simp only: bind_st_apply len prod.case sum.case outer return_st_apply
        get_horizontal_counts_def append_Nil)
qed

lemma diagonal_step_st_refines:
  assumes "objs h g = map Ref rs" and "length rs = length b"
    and "\<forall>i < length b. objs h (rs ! i) = map Str (b ! i)"
  shows "bind_st (getitem_st (Ref g) i) (\<lambda>row.
         bind_st (getitem_st row i) (\<lambda>c1.
         bind_st (getitem_st (Ref g) i) (\<lambda>row.
         bind_st (getitem_st row (2 - i)) (\<lambda>c2.
           return_st
             (if c1 = Str s then count_diag1 + 1 else count_diag1,
              if c2 = Str s then count_diag2 + 1 else count_diag2))))) h =
         (diagonal_step b s i (count_diag1, count_diag2), h)"
proof (cases "i < length b")
  case False
  with assms show ?thesis
    by (simp add: bind_st_def getitem_st_def getitem_def diagonal_step_def)
next
  case True
  with assms have row: "objs h (rs ! i) = map Str (b ! i)" by simp
  from True assms show ?thesis
    by (simp add: bind_st_def getitem_st_def getitem_def diagonal_step_def row return_st_def)
qed

lemma bind_st_reads:
  "snd (m h) = h \<Longrightarrow>
   bind_st m f h = (case fst (m h) of Inl e \<Rightarrow> (Inl e, h) | Inr x \<Rightarrow> f x h)"
  by (cases "m h") (simp add: bind_st_def split: sum.splits)

lemma for_st_Cons_reads:
  "snd (body x s h) = h \<Longrightarrow>
   for_st (x # xs) body s h =
     (case fst (body x s h) of Inl e \<Rightarrow> (Inl e, h) | Inr s' \<Rightarrow> for_st xs body s' h)"
  by (simp add: bind_st_reads)

lemma get_diagonal_counts_st_refines:
  assumes "board_at h v b"
  shows "get_diagonal_counts_st v s h = (get_diagonal_counts b s, h)"
proof -
  from assms obtain g rs where
    g: "v = Ref g" "objs h g = map Ref rs" "length rs = length b"
       "\<forall>i < length b. objs h (rs ! i) = map Str (b ! i)"
    by (auto elim: board_atE)
  have step: "(case c of (count_diag1, count_diag2) \<Rightarrow>
         bind_st (getitem_st (Ref g) i) (\<lambda>row.
         bind_st (getitem_st row i) (\<lambda>c1.
         bind_st (getitem_st (Ref g) i) (\<lambda>row.
         bind_st (getitem_st row (2 - i)) (\<lambda>c2.
           return_st
             (if c1 = Str s then count_diag1 + 1 else count_diag1,
              if c2 = Str s then count_diag2 + 1 else count_diag2)))))) h =
         (diagonal_step b s i c, h)" for i c
    by (cases c) (simp only: prod.case diagonal_step_st_refines [OF g(2,3,4)])
  have loop: "for_st [0, 1, 2]
          (\<lambda>i (count_diag1, count_diag2).
             bind_st (getitem_st (Ref g) i) (\<lambda>row.
             bind_st (getitem_st row i) (\<lambda>c1.
             bind_st (getitem_st (Ref g) i) (\<lambda>row.
             bind_st (getitem_st row (2 - i)) (\<lambda>c2.
               return_st
                 (if c1 = Str s then count_diag1 + 1 else count_diag1,
                  if c2 = Str s then count_diag2 + 1 else count_diag2))))))
          (0, 0) h =
        (bind_err (diagonal_step b s 0 (0, 0)) (\<lambda>c0.
         bind_err (diagonal_step b s 1 c0) (\<lambda>c1.
         diagonal_step b s 2 c1)), h)"
  proof (cases "diagonal_step b s 0 (0, 0)")
    case (Inl e)
    then show ?thesis
      by (simp only: for_st_Cons_reads step fst_conv snd_conv sum.case bind_err_def)
  next
    case c0: (Inr c0)
    show ?thesis
    proof (cases "diagonal_step b s 1 c0")
      case (Inl e)
      with c0 show ?thesis
        by (simp only: for_st_Cons_reads step fst_conv snd_conv sum.case bind_err_def)
    next
      case c1: (Inr c1)
      show ?thesis
      proof (cases "diagonal_step b s 2 c1")
        case (Inl e)
        with c0 c1 show ?thesis
          by (simp only: for_st_Cons_reads step fst_conv snd_conv sum.case bind_err_def)
      next
        case (Inr c2)
        with c0 c1 show ?thesis
          by (simp only: for_st_Cons_reads step fst_conv snd_conv sum.case bind_err_def
              for_st.simps(1) return_st_apply)
      qed
    qed
  qed
  show ?thesis
    unfolding get_diagonal_counts_st_def g(1) upt_3
    by (simp only: bind_st_reads loop fst_conv snd_conv)
       (simp add: get_diagonal_counts_def bind_err_def return_st_apply
         split: sum.splits prod.splits)
qed

subsection \<open>The store: transposition and the move selection\<close>

lemma transposed_st_grid:
  assumes "g < top h" and "r0 < top h" and "r1 < top h" and "r2 < top h"
    and "objs h g = [Ref r0, Ref r1, Ref r2]"
    and "objs h r0 = [Str a1, Str a2, Str a3]"
    and "objs h r1 = [Str a4, Str a5, Str a6]"
    and "objs h r2 = [Str a7, Str a8, Str a9]"
  shows "transposed_st (Ref g) h =
           (Inr (Ref (top h + 3)),
            Heap ((objs h)
                    (top h := [Str a1, Str a4, Str a7],
                     top h + 1 := [Str a2, Str a5, Str a8],
                     top h + 2 := [Str a3, Str a6, Str a9],
                     top h + 3 := [Ref (top h), Ref (top h + 1), Ref (top h + 2)]))
                 (top h + 4))"
  using assms
  by (simp add: transposed_st_def bind_st_def getitem_st_def getitem_def len_st_def
      new_list_st_def return_st_def upt_3 numeral_3_eq_3 numeral_2_eq_2)


lemma board_at_3x3E:
  assumes "board_at h v b" and "board_3x3 b"
  obtains g r0 r1 r2 a1 a2 a3 a4 a5 a6 a7 a8 a9 where
    "v = Ref g" and "g < top h" and "r0 < top h" and "r1 < top h" and "r2 < top h"
    and "objs h g = [Ref r0, Ref r1, Ref r2]"
    and "objs h r0 = [Str a1, Str a2, Str a3]"
    and "objs h r1 = [Str a4, Str a5, Str a6]"
    and "objs h r2 = [Str a7, Str a8, Str a9]"
    and "b = [[a1, a2, a3], [a4, a5, a6], [a7, a8, a9]]"
proof -
  from assms(2) obtain a1 a2 a3 a4 a5 a6 a7 a8 a9 where
    b: "b = [[a1, a2, a3], [a4, a5, a6], [a7, a8, a9]]"
    by (rule board_3x3_explicit)
  from assms(1) obtain g rs where
    g: "v = Ref g" "g < top h" "objs h g = map Ref rs" "length rs = length b"
       "\<forall>i < length b. rs ! i < top h \<and> objs h (rs ! i) = map Str (b ! i)"
    by (rule board_atE)
  from g(4) b obtain r0 r1 r2 where rs: "rs = [r0, r1, r2]"
    by (auto simp: numeral_3_eq_3 length_Suc_conv)
  from g(5) have rows: "rs ! 0 < top h \<and> objs h (rs ! 0) = map Str (b ! 0)"
    "rs ! 1 < top h \<and> objs h (rs ! 1) = map Str (b ! 1)"
    "rs ! 2 < top h \<and> objs h (rs ! 2) = map Str (b ! 2)"
    unfolding b by simp_all
  show thesis
    by (rule that [of g r0 r1 r2 a1 a2 a3 a4 a5 a6 a7 a8 a9])
       (use g(1,2,3) rows in \<open>simp_all add: rs b\<close>)
qed

lemma transpose_grid:
  "transpose [[a1, a2, a3], [a4, a5, a6], [a7, a8, a9]] =
     [[a1, a4, a7], [a2, a5, a8], [a3, a6, a9]]"
  by (simp add: transpose.simps)

lemma transposed_3x3:
  assumes "board_3x3 b"
  shows "transposed b = Inr (transpose b)"
proof -
  from assms obtain a1 a2 a3 a4 a5 a6 a7 a8 a9 where
    b: "b = [[a1, a2, a3], [a4, a5, a6], [a7, a8, a9]]"
    by (rule board_3x3_explicit)
  show ?thesis unfolding b by (simp only: transposed_grid transpose_grid)
qed

lemma transposed_st_3x3:
  assumes "board_at h v b" and "board_3x3 b"
  shows "\<exists>t h'. transposed_st v h = (Inr t, h') \<and> extends h h' \<and> new_grid h h' t \<and>
                board_at h' t (transpose b) \<and> board_at h' v b"
proof -
  from assms obtain g r0 r1 r2 a1 a2 a3 a4 a5 a6 a7 a8 a9 where
    v: "v = Ref g" and lt: "g < top h" "r0 < top h" "r1 < top h" "r2 < top h"
    and objs: "objs h g = [Ref r0, Ref r1, Ref r2]"
      "objs h r0 = [Str a1, Str a2, Str a3]"
      "objs h r1 = [Str a4, Str a5, Str a6]"
      "objs h r2 = [Str a7, Str a8, Str a9]"
    and b: "b = [[a1, a2, a3], [a4, a5, a6], [a7, a8, a9]]"
    by (rule board_at_3x3E)
  let ?h' = "Heap ((objs h)
                    (top h := [Str a1, Str a4, Str a7],
                     top h + 1 := [Str a2, Str a5, Str a8],
                     top h + 2 := [Str a3, Str a6, Str a9],
                     top h + 3 := [Ref (top h), Ref (top h + 1), Ref (top h + 2)]))
                 (top h + 4)"
  let ?t = "Ref (top h + 3)"
  have run: "transposed_st v h = (Inr ?t, ?h')"
    unfolding v by (rule transposed_st_grid [OF lt objs])
  have ext: "extends h ?h'"
    by (simp add: extends_def)
  have new: "new_grid h ?h' ?t"
    unfolding new_grid_def
    by (intro exI [of _ "top h + 3"] exI [of _ "[top h, top h + 1, top h + 2]"]) simp
  have "\<forall>i < 3. [top h, top h + 1, top h + 2] ! i < top ?h' \<and>
          objs ?h' ([top h, top h + 1, top h + 2] ! i) =
            map Str ([[a1, a4, a7], [a2, a5, a8], [a3, a6, a9]] ! i)"
    by (auto dest!: less_3_cases)
  then have t: "board_at ?h' ?t (transpose b)"
    unfolding board_at_def b transpose_grid
    by (intro exI [of _ "top h + 3"] exI [of _ "[top h, top h + 1, top h + 2]"]) simp
  from ext assms(1) have "board_at ?h' v b" by (rule board_at_extends)
  with run ext new t show ?thesis by blast
qed

lemma get_vertical_counts_st_3x3:
  assumes "board_at h v b" and "board_3x3 b"
  shows "\<exists>h'. get_vertical_counts_st v s h = (get_vertical_counts b s, h') \<and>
              extends h h' \<and> board_at h' v b"
proof -
  from transposed_st_3x3 [OF assms] obtain t h' where
    t: "transposed_st v h = (Inr t, h')" "extends h h'" "board_at h' t (transpose b)"
       "board_at h' v b"
    by blast
  have "get_vertical_counts_st v s h = (Inr (get_horizontal_counts (transpose b) s), h')"
    unfolding get_vertical_counts_st_def
    by (rule bind_st_step, rule t(1)) (rule get_horizontal_counts_st_refines [OF t(3)])
  moreover have "get_vertical_counts b s = Inr (get_horizontal_counts (transpose b) s)"
    by (simp add: get_vertical_counts_def transposed_3x3 [OF assms(2)])
  ultimately show ?thesis using t(2,4) by auto
qed

lemma calc_optimized_move_st_3x3:
  assumes "board_at h v b" and "board_3x3 b"
  shows "\<exists>h'. calc_optimized_move_st order v s h = (calc_optimized_move order b s, h') \<and>
              extends h h' \<and> board_at h' v b"
proof -
  from get_vertical_counts_st_3x3 [OF assms, of s] obtain h' where
    v: "get_vertical_counts_st v s h = (get_vertical_counts b s, h')"
       "extends h h'" "board_at h' v b"
    by blast
  from family_counts_3x3 [OF assms(2), of s Columns] obtain vf where
    vf: "get_vertical_counts b s = Inr vf" by auto
  from family_counts_3x3 [OF assms(2), of s Diagonals] obtain df where
    df: "get_diagonal_counts b s = Inr df" by auto
  have "calc_optimized_move_st order v s h = (calc_optimized_move order b s, h')"
    unfolding calc_optimized_move_st_def
    apply (rule bind_st_step, rule get_possible_moves_st_refines [OF assms(1)])
    apply (rule bind_st_step, rule get_horizontal_counts_st_refines [OF assms(1)])
    apply (rule bind_st_step, rule v(1) [unfolded vf])
    apply (rule bind_st_step, rule get_diagonal_counts_st_refines [OF v(3), of s, unfolded df])
    apply (simp add: pure_st_def calc_optimized_move_def Let_def vf df)
    done
  with v(2,3) show ?thesis by blast
qed

lemma make_smart_move_st_3x3:
  assumes "board_at h v b" and "board_3x3 b" and "iteration_order order"
  shows "\<exists>h'. make_smart_move_st order v p q h = (make_smart_move order b p q, h') \<and>
              extends h h' \<and> board_at h' v b"
proof -
  from calc_optimized_move_st_3x3 [OF assms(1,2), of order p] obtain h1 where
    1: "calc_optimized_move_st order v p h = (calc_optimized_move order b p, h1)"
       "extends h h1" "board_at h1 v b"
    by blast
  from calc_optimized_move_st_3x3 [OF 1(3) assms(2), of order q] obtain h2 where
    2: "calc_optimized_move_st order v q h1 = (calc_optimized_move order b q, h2)"
       "extends h1 h2" "board_at h2 v b"
    by blast
  from calc_optimized_move_keys [OF assms(2,3), of p] obtain cur where
    cur: "calc_optimized_move order b p = Inr cur" by blast
  from calc_optimized_move_keys [OF assms(2,3), of q] obtain opp where
    opp: "calc_optimized_move order b q = Inr opp" by blast
  have "make_smart_move_st order v p q h = (make_smart_move order b p q, h2)"
    unfolding make_smart_move_st_def
    apply (rule bind_st_step, rule 1(1) [unfolded cur])
    apply (rule bind_st_step, rule 2(1) [unfolded opp])
    apply (simp add: make_smart_move_def cur opp Let_def return_st_apply)
    done
  moreover from 1(2) 2(2) have "extends h h2" by (rule extends_trans)
  ultimately show ?thesis using 2(3) by blast
qed


text \<open>
  Claim C8 (no mutation of the board). Let the value \<open>v\<close> refer, in the store \<open>h\<close>, to
  a board \<open>b\<close> of three rows of three cells. The query functions
  \<open>get_player_fields\<close>, \<open>get_possible_moves\<close>, \<open>get_horizontal_counts\<close> and
  \<open>get_diagonal_counts\<close> return the store they were given. The transposition equals the
  matrix transpose of the board; it returns a reference to a list object that did not
  exist before, whose items are such objects too and whose contents are the transpose,
  and it leaves every object of \<open>h\<close>, the board among them, as it was.
  \<open>get_vertical_counts\<close>, \<open>calc_optimized_move\<close> and \<open>make_smart_move\<close> return what
  the functions on board values return, in a store that only has more objects than
  \<open>h\<close> and in which \<open>v\<close> still refers to the board \<open>b\<close>.
\<close>

theorem board_not_mutated:
  assumes "board_at h v b" and "board_3x3 b" and "iteration_order order"
  shows "snd (get_player_fields_st v s h) = h \<and>
         snd (get_possible_moves_st order v h) = h \<and>
         snd (get_horizontal_counts_st v s h) = h \<and>
         snd (get_diagonal_counts_st v s h) = h \<and>
         transposed b = Inr (transpose b) \<and>
         (\<exists>t h'. transposed_st v h = (Inr t, h') \<and> extends h h' \<and> new_grid h h' t \<and>
                 board_at h' t (transpose b) \<and> board_at h' v b) \<and>
         (\<exists>h'. get_vertical_counts_st v s h = (get_vertical_counts b s, h') \<and>
               extends h h' \<and> board_at h' v b) \<and>
         (\<exists>h'. calc_optimized_move_st order v s h = (calc_optimized_move order b s, h') \<and>
               extends h h' \<and> board_at h' v b) \<and>
         (\<exists>h'. make_smart_move_st order v p q h = (make_smart_move order b p q, h') \<and>
               extends h h' \<and> board_at h' v b)"
proof (intro conjI)
  show "snd (get_player_fields_st v s h) = h"
    using reads_only_get_player_fields_st [of v s] by (simp add: reads_only_def)
  show "snd (get_possible_moves_st order v h) = h"
    using reads_only_get_possible_moves_st [of order v] by (simp add: reads_only_def)
  show "snd (get_horizontal_counts_st v s h) = h"
    using reads_only_get_horizontal_counts_st [of v s] by (simp add: reads_only_def)
  show "snd (get_diagonal_counts_st v s h) = h"
    using reads_only_get_diagonal_counts_st [of v s] by (simp add: reads_only_def)
  show "transposed b = Inr (transpose b)"
    by (rule transposed_3x3 [OF assms(2)])
  show "\<exists>t h'. transposed_st v h = (Inr t, h') \<and> extends h h' \<and> new_grid h h' t \<and>
                board_at h' t (transpose b) \<and> board_at h' v b"
    by (rule transposed_st_3x3 [OF assms(1,2)])
  show "\<exists>h'. get_vertical_counts_st v s h = (get_vertical_counts b s, h') \<and>
              extends h h' \<and> board_at h' v b"
    by (rule get_vertical_counts_st_3x3 [OF assms(1,2)])
  show "\<exists>h'. calc_optimized_move_st order v s h = (calc_optimized_move order b s, h') \<and>
              extends h h' \<and> board_at h' v b"
    by (rule calc_optimized_move_st_3x3 [OF assms(1,2)])
  show "\<exists>h'. make_smart_move_st order v p q h = (make_smart_move order b p q, h') \<and>
              extends h h' \<and> board_at h' v b"
    by (rule make_smart_move_st_3x3 [OF assms])
qed

theorem board_not_mutated_witness:
  "board_at example_heap (Ref 3)
     [[''X'', ''O'', ''O''], [''_'', ''_'', ''_''], [''_'', ''_'', ''X'']] \<and>
   board_3x3 [[''X'', ''O'', ''O''], [''_'', ''_'', ''_''], [''_'', ''_'', ''X'']] \<and>
   iteration_order ascending \<and>
   snd (get_player_fields_st (Ref 3) ''X'' example_heap) = example_heap \<and>
   (\<exists>h'. make_smart_move_st ascending (Ref 3) ''X'' ''O'' example_heap =
           (make_smart_move ascending
              [[''X'', ''O'', ''O''], [''_'', ''_'', ''_''], [''_'', ''_'', ''X'']] ''X'' ''O'', h') \<and>
         extends example_heap h' \<and>
         board_at h' (Ref 3) [[''X'', ''O'', ''O''], [''_'', ''_'', ''_''], [''_'', ''_'', ''X'']])"
proof -
  let ?b = "[[''X'', ''O'', ''O''], [''_'', ''_'', ''_''], [''_'', ''_'', ''X'']]"
  have "\<forall>i < 3. [0, 1, 2] ! i < top example_heap \<and>
          objs example_heap ([0, 1, 2] ! i) = map Str (?b ! i)"
    by (auto dest!: less_3_cases simp: example_heap_def)
  then have 1: "board_at example_heap (Ref 3) ?b"
    unfolding board_at_def
    by (intro exI [of _ 3] exI [of _ "[0, 1, 2]"]) (simp add: example_heap_def)
  have 2: "board_3x3 ?b" by (simp add: board_3x3_def)
  note inst = board_not_mutated [OF 1 2 iteration_order_ascending, of "''X''" "''X''" "''O''"]
  from inst have a: "snd (get_player_fields_st (Ref 3) ''X'' example_heap) = example_heap"
    by (elim conjE)
  from inst have b:
    "\<exists>h'. make_smart_move_st ascending (Ref 3) ''X'' ''O'' example_heap =
           (make_smart_move ascending ?b ''X'' ''O'', h') \<and>
         extends example_heap h' \<and> board_at h' (Ref 3) ?b"
    by (elim conjE)
  from 1 2 iteration_order_ascending a b show ?thesis by (intro conjI)
qed

end
